theory Spec2Isabelle
  imports Main
begin

section \<open>The SAT engine (src/sat.js)\<close>

subsection \<open>Solver object and assignment array\<close>

text \<open>
  A \<open>SATSolver\<close> object has two fields: the clause list, in the order the clauses were
  added, and the number of variables allocated so far. A literal is a JavaScript number;
  the encoder only ever produces integers, so a clause is a list of integers.
\<close>

record SATSolver =
  clauses :: "int list list"
  numVars :: nat

definition new_SATSolver :: SATSolver where
  "new_SATSolver = \<lparr>clauses = [], numVars = 0\<rparr>"

text \<open>\<open>newVar\<close> is \<open>return ++this.numVars\<close>: the new count is both stored and returned.\<close>

definition newVar :: "SATSolver \<Rightarrow> int \<times> SATSolver" where
  "newVar s = (int (Suc (numVars s)), s\<lparr>numVars := Suc (numVars s)\<rparr>)"

text \<open>\<open>addClause\<close> pushes the literal array at the end of \<open>this.clauses\<close>.\<close>

definition addClause :: "int list \<Rightarrow> SATSolver \<Rightarrow> SATSolver" where
  "addClause literals s = s\<lparr>clauses := clauses s @ [literals]\<rparr>"

text \<open>
  The assignment is a JavaScript array whose entries are \<open>true\<close>, \<open>false\<close> or
  \<open>undefined\<close>; \<open>None\<close> stands for \<open>undefined\<close>. Reading an index beyond the end of a
  JavaScript array yields \<open>undefined\<close>, and writing beyond the end extends the array, the
  skipped positions reading as \<open>undefined\<close>.
\<close>

type_synonym assignment = "bool option list"

definition js_get :: "assignment \<Rightarrow> nat \<Rightarrow> bool option" where
  "js_get a i = (if i < length a then a ! i else None)"

definition js_set :: "assignment \<Rightarrow> nat \<Rightarrow> bool option \<Rightarrow> assignment" where
  "js_set a i v =
     (if i < length a then a[i := v] else a @ replicate (i - length a) None @ [v])"

subsection \<open>evalClause\<close>

text \<open>
  The loop of \<open>evalClause\<close>, with the flag \<open>hasUndefined\<close> as accumulator. The result is
  \<open>Some True\<close> (satisfied), \<open>Some False\<close> (conflict) or \<open>None\<close> (\<open>undefined\<close>, unknown).
  \<open>Math.abs(lit)\<close> is the index read.
\<close>

fun evalClause_loop :: "int list \<Rightarrow> assignment \<Rightarrow> bool \<Rightarrow> bool option" where
  "evalClause_loop [] a hasUndefined = (if hasUndefined then None else Some False)"
| "evalClause_loop (lit # rest) a hasUndefined =
     (case js_get a (nat \<bar>lit\<bar>) of
        None \<Rightarrow> evalClause_loop rest a True
      | Some val \<Rightarrow>
          (let litVal = (if lit > 0 then val else \<not> val)
           in if litVal then Some True else evalClause_loop rest a hasUndefined))"

definition evalClause :: "int list \<Rightarrow> assignment \<Rightarrow> bool option" where
  "evalClause clause a = evalClause_loop clause a False"

subsection \<open>dpll and solve\<close>

text \<open>
  The first loop of \<open>dpll\<close> scans the clauses in order with the flag \<open>allSatisfied\<close>; it
  leaves the function with \<open>null\<close> at the first clause that evaluates to \<open>false\<close>.
\<close>

datatype scan = Conflict | Scanned bool

fun dpll_scan :: "int list list \<Rightarrow> assignment \<Rightarrow> bool \<Rightarrow> scan" where
  "dpll_scan [] a allSatisfied = Scanned allSatisfied"
| "dpll_scan (clause # rest) a allSatisfied =
     (case evalClause clause a of
        Some False \<Rightarrow> Conflict
      | None \<Rightarrow> dpll_scan rest a False
      | Some True \<Rightarrow> dpll_scan rest a allSatisfied)"

text \<open>
  The second loop looks for the first index \<open>i\<close> from 1 to \<open>numVars\<close> whose entry is
  \<open>undefined\<close>; \<open>None\<close> stands for \<open>nextVar === -1\<close>.
\<close>

function chooseVar :: "nat \<Rightarrow> nat \<Rightarrow> assignment \<Rightarrow> nat option" where
  "chooseVar i n a =
     (if i \<le> n then (if js_get a i = None then Some i else chooseVar (Suc i) n a)
      else None)"
  by pat_completeness auto
termination
  by (relation "measure (\<lambda>(i, n, a). Suc n - i)") auto

declare chooseVar.simps [simp del]

text \<open>
  \<open>dpll\<close> mutates the one shared array and returns either that array or \<open>null\<close>. The model
  returns the pair of the returned value (\<open>None\<close> for \<open>null\<close>) and the array as the call
  leaves it. The second recursive call runs on the array as the first call left it.
\<close>

function dpll :: "SATSolver \<Rightarrow> assignment \<Rightarrow> assignment option \<times> assignment" where
  "dpll s a =
     (case dpll_scan (clauses s) a True of
        Conflict \<Rightarrow> (None, a)
      | Scanned allSatisfied \<Rightarrow>
          if allSatisfied then (Some a, a)
          else
            (case chooseVar 1 (numVars s) a of
               None \<Rightarrow> (Some a, a)
             | Some nextVar \<Rightarrow>
                 (case dpll s (js_set a nextVar (Some True)) of
                    (Some resultTrue, a1) \<Rightarrow> (Some resultTrue, a1)
                  | (None, a1) \<Rightarrow>
                      (case dpll s (js_set a1 nextVar (Some False)) of
                         (Some resultFalse, a2) \<Rightarrow> (Some resultFalse, a2)
                       | (None, a2) \<Rightarrow> (None, js_set a2 nextVar None)))))"
  by pat_completeness auto

text \<open>
  \<open>solve\<close> allocates \<open>new Array(numVars + 1).fill(undefined)\<close> and hands it to \<open>dpll\<close>.
\<close>

definition solve :: "SATSolver \<Rightarrow> assignment option \<times> assignment" where
  "solve s = dpll s (replicate (numVars s + 1) None)"

text \<open>The number of allocated variables that the array leaves \<open>undefined\<close>.\<close>

definition unassigned :: "SATSolver \<Rightarrow> assignment \<Rightarrow> nat" where
  "unassigned s a = length (filter (\<lambda>i. js_get a i = None) [1..<Suc (numVars s)])"

subsection \<open>Vocabulary of the properties\<close>

text \<open>
  A literal evaluates to true under an assignment array when its variable has a boolean
  entry and the entry agrees with the sign; it evaluates to false when the variable has
  a boolean entry that disagrees with the sign.
\<close>

definition lit_true :: "assignment \<Rightarrow> int \<Rightarrow> bool" where
  "lit_true a lit =
     (case js_get a (nat \<bar>lit\<bar>) of None \<Rightarrow> False
      | Some val \<Rightarrow> (if lit > 0 then val else \<not> val))"

definition lit_false :: "assignment \<Rightarrow> int \<Rightarrow> bool" where
  "lit_false a lit =
     (case js_get a (nat \<bar>lit\<bar>) of None \<Rightarrow> False
      | Some val \<Rightarrow> \<not> (if lit > 0 then val else \<not> val))"

definition clause_true :: "assignment \<Rightarrow> int list \<Rightarrow> bool" where
  "clause_true a clause = list_ex (lit_true a) clause"

text \<open>Every literal of every clause names an allocated variable.\<close>

definition allocated_only :: "SATSolver \<Rightarrow> bool" where
  "allocated_only s =
     list_all (list_all (\<lambda>lit. 1 \<le> \<bar>lit\<bar> \<and> \<bar>lit\<bar> \<le> int (numVars s))) (clauses s)"

text \<open>A total boolean assignment, and what it means for it to satisfy a formula.\<close>

definition holds :: "(nat \<Rightarrow> bool) \<Rightarrow> int \<Rightarrow> bool" where
  "holds \<sigma> lit = (if lit > 0 then \<sigma> (nat \<bar>lit\<bar>) else \<not> \<sigma> (nat \<bar>lit\<bar>))"

definition satisfies :: "(nat \<Rightarrow> bool) \<Rightarrow> int list list \<Rightarrow> bool" where
  "satisfies \<sigma> cs = list_all (list_ex (holds \<sigma>)) cs"

text \<open>A total assignment extends an array when it agrees with every boolean entry.\<close>

definition extends :: "(nat \<Rightarrow> bool) \<Rightarrow> assignment \<Rightarrow> bool" where
  "extends \<sigma> a = (\<forall>i b. js_get a i = Some b \<longrightarrow> \<sigma> i = b)"

text \<open>
  The allocated variables with a boolean entry are exactly the variables 1 to \<open>k\<close>.
\<close>

definition assigned_upto :: "nat \<Rightarrow> assignment \<Rightarrow> nat \<Rightarrow> bool" where
  "assigned_upto n a k =
     (k \<le> n \<and> list_all (\<lambda>i. (js_get a i \<noteq> None) = (i \<le> k)) [1..<Suc n])"

subsection \<open>The reference search of the specification\<close>

text \<open>
  The specification describes the search on three-valued clause statuses: a clause is
  satisfied if at least one literal currently evaluates true, violated if every literal
  currently evaluates false, and undecided otherwise.
\<close>

datatype status = Satisfied | Violated | Undecided

definition clause_status :: "assignment \<Rightarrow> int list \<Rightarrow> status" where
  "clause_status a clause =
     (if list_ex (lit_true a) clause then Satisfied
      else if list_all (lit_false a) clause then Violated
      else Undecided)"

text \<open>The lowest-indexed allocated variable that is currently unassigned.\<close>

definition lowest_unassigned :: "nat \<Rightarrow> assignment \<Rightarrow> nat option" where
  "lowest_unassigned n a =
     (case filter (\<lambda>i. js_get a i = None) [1..<Suc n] of [] \<Rightarrow> None | v # _ \<Rightarrow> Some v)"

text \<open>
  The reference search works on a persistent assignment passed by value, so nothing is
  undone. A violated clause fails; if every clause is satisfied the assignment is the
  model; otherwise the lowest unassigned variable is tried with true, then with false.
  The specification does not say what the search answers at a node where some clause is
  undecided and no allocated variable is unassigned; the reference takes that answer as
  the parameter \<open>leaf\<close>. With \<open>leaf = Some\<close> such a node answers with its assignment.
\<close>

function ref_search ::
  "(assignment \<Rightarrow> assignment option) \<Rightarrow> int list list \<Rightarrow> nat \<Rightarrow> assignment \<Rightarrow> assignment option" where
  "ref_search leaf cs n a =
     (if list_ex (\<lambda>c. clause_status a c = Violated) cs then None
      else if list_all (\<lambda>c. clause_status a c = Satisfied) cs then Some a
      else
        (case lowest_unassigned n a of
           None \<Rightarrow> leaf a
         | Some v \<Rightarrow>
             (case ref_search leaf cs n (js_set a v (Some True)) of
                Some model \<Rightarrow> Some model
              | None \<Rightarrow> ref_search leaf cs n (js_set a v (Some False)))))"
  by pat_completeness auto

definition ref_solve ::
  "(assignment \<Rightarrow> assignment option) \<Rightarrow> int list list \<Rightarrow> nat \<Rightarrow> assignment option" where
  "ref_solve leaf cs n = ref_search leaf cs n (replicate (n + 1) None)"

section \<open>The layout optimizer (UnifiedLayoutOptimizer)\<close>

subsection \<open>Data\<close>

text \<open>
  Coordinates are JavaScript numbers computed with \<open>Math.cos\<close>, \<open>Math.sin\<close> and
  \<open>Math.sqrt\<close>; their type is the parameter \<open>'n\<close>, and no arithmetic is done on them
  here. A candidate is an object with \<open>x\<close> and \<open>y\<close> (fields \<open>pos_x\<close>, \<open>pos_y\<close>); an
  organization candidate also carries \<open>score\<close>, a label candidate \<open>angle\<close>. A circle
  has \<open>index\<close>, \<open>name\<close>, \<open>color\<close>, \<open>x\<close>, \<open>y\<close>, \<open>r\<close> (fields \<open>circle_x\<close>, \<open>circle_y\<close>,
  \<open>circle_r\<close>) and receives \<open>labelX\<close>, \<open>labelY\<close>; an organization has \<open>name\<close> and
  \<open>categories\<close> and receives \<open>x\<close>, \<open>y\<close> (fields \<open>org_x\<close>, \<open>org_y\<close>). A property that has
  not been set is \<open>None\<close>.
\<close>

record 'n position =
  pos_x :: 'n
  pos_y :: 'n

record 'n org_candidate = "'n position" +
  score :: 'n

record 'n label_candidate = "'n position" +
  angle :: 'n

record 'n circle =
  index :: nat
  name :: string
  color :: string
  circle_x :: 'n
  circle_y :: 'n
  circle_r :: 'n
  labelX :: "'n option"
  labelY :: "'n option"

record 'n organization =
  org_name :: string
  org_categories :: "string list"
  org_x :: "'n option"
  org_y :: "'n option"

record category =
  cat_name :: string
  cat_color :: string

record 'n data =
  categories :: "category list"
  organizations :: "'n organization list"

record 'n layout =
  layout_circles :: "'n circle list"
  layout_organizations :: "'n organization list"

record 'n encoding =
  orgVars :: "int list list"
  labelVars :: "int list list"
  circles :: "'n circle list"

text \<open>
  The methods of the optimizer that compute with floating-point numbers are taken as
  they are, as functions of their arguments: the three geometric tests, the candidate
  generators with the force simulation behind them, and the fallback layout. The type
  \<open>'an\<close> is that of the analysis that \<open>analyzeRelationships\<close> returns.
\<close>

record ('n, 'an) optimizer =
  analyzeRelationships :: "'n data \<Rightarrow> 'an"
  generateCircleCandidates :: "'an \<Rightarrow> 'n circle list list"
  generateOrgCandidates ::
    "'n organization list \<Rightarrow> 'n circle list list \<Rightarrow> 'n org_candidate list list"
  generateLabelCandidates :: "'n circle list list \<Rightarrow> 'n label_candidate list list"
  positionsOverlap :: "'n org_candidate \<Rightarrow> 'n org_candidate \<Rightarrow> int \<Rightarrow> bool"
  labelsOverlap :: "'n label_candidate \<Rightarrow> string \<Rightarrow> 'n label_candidate \<Rightarrow> string \<Rightarrow> bool"
  labelOverlapsCircle :: "'n label_candidate \<Rightarrow> string \<Rightarrow> 'n circle \<Rightarrow> bool"
  fallbackLayout :: "'n data \<Rightarrow> 'an \<Rightarrow> 'n layout"

text \<open>Reading a property of \<open>undefined\<close> throws a \<open>TypeError\<close>.\<close>

datatype error = TypeError

subsection \<open>encodeSAT\<close>

text \<open>
  \<open>candidates.map(positions => positions.map(() => sat.newVar()))\<close>: one fresh variable
  per candidate, row by row, each row from left to right.
\<close>

fun alloc_row :: "'c list \<Rightarrow> SATSolver \<Rightarrow> int list \<times> SATSolver" where
  "alloc_row [] s = ([], s)"
| "alloc_row (p # ps) s =
     (case newVar s of (v, s1) \<Rightarrow>
        (case alloc_row ps s1 of (vs, s2) \<Rightarrow> (v # vs, s2)))"

fun alloc_rows :: "'c list list \<Rightarrow> SATSolver \<Rightarrow> int list list \<times> SATSolver" where
  "alloc_rows [] s = ([], s)"
| "alloc_rows (positions # rest) s =
     (case alloc_row positions s of (row, s1) \<Rightarrow>
        (case alloc_rows rest s1 of (rows, s2) \<Rightarrow> (row # rows, s2)))"

text \<open>
  The clauses that the body of the two exactly-one loops pushes for one entity, in the
  order pushed: nothing for an empty row; otherwise the row itself, then one clause per
  pair \<open>p1 < p2\<close>.
\<close>

definition exactly_one :: "int list \<Rightarrow> int list list" where
  "exactly_one vars =
     (if length vars = 0 then []
      else vars #
        [[- (vars ! p1), - (vars ! p2)]. p1 \<leftarrow> [0..<length vars], p2 \<leftarrow> [p1 + 1..<length vars]])"

definition exactly_one_each :: "nat \<Rightarrow> int list list \<Rightarrow> int list list" where
  "exactly_one_each n varRows = concat (map (\<lambda>i. exactly_one (varRows ! i)) [0..<n])"

text \<open>
  The clauses pushed by the two four-fold overlap loops over \<open>n\<close> entities: \<open>conflict i pi j pj\<close>
  is the test made on candidate \<open>pi\<close> of entity \<open>i\<close> and candidate \<open>pj\<close> of entity \<open>j\<close>.
\<close>

definition overlap_clauses ::
  "nat \<Rightarrow> 'c list list \<Rightarrow> int list list \<Rightarrow> (nat \<Rightarrow> nat \<Rightarrow> nat \<Rightarrow> nat \<Rightarrow> bool) \<Rightarrow> int list list" where
  "overlap_clauses n candidates varRows conflict =
     [[- (varRows ! i ! pi), - (varRows ! j ! pj)].
        i \<leftarrow> [0..<n], j \<leftarrow> [i + 1..<n],
        pi \<leftarrow> [0..<length (candidates ! i)], pj \<leftarrow> [0..<length (candidates ! j)],
        conflict i pi j pj]"

text \<open>
  The last block of \<open>encodeSAT\<close> walks over every circle, every label candidate of that
  circle and every circle again, and calls \<open>labelOverlapsCircle\<close>; the body of its \<open>if\<close>
  holds comments only.
\<close>

definition label_circle_block ::
  "('n, 'an) optimizer \<Rightarrow> 'n circle list \<Rightarrow> 'n label_candidate list list \<Rightarrow> SATSolver \<Rightarrow> SATSolver" where
  "label_circle_block opt circs labelCandidates sat =
     fold (\<lambda>circleIdx sat1.
        fold (\<lambda>labelPos sat2.
           fold (\<lambda>otherCircle sat3.
              if labelOverlapsCircle opt labelPos (name (circs ! circleIdx)) otherCircle
              then sat3 else sat3)
             circs sat2)
          (labelCandidates ! circleIdx) sat1)
       [0..<length circs] sat"

text \<open>
  \<open>encodeSAT\<close> returns the encoding object \<open>{orgVars, labelVars, circles}\<close>; the solver it
  has filled is returned beside it. \<open>circles\<close> is \<open>circleCandidates[0]\<close>. The first
  \<open>forEach\<close> reads \<open>orgVars[i].length\<close> for every organization and the second
  \<open>labelVars[i].length\<close> for every circle, so an organization or a circle without a
  candidate row, and an empty \<open>circleCandidates\<close>, end in a \<open>TypeError\<close>. Past these
  checks every index the loops read is in range.
\<close>

definition encodeSAT ::
  "('n, 'an) optimizer \<Rightarrow> SATSolver \<Rightarrow> 'n data \<Rightarrow> 'an \<Rightarrow> 'n circle list list \<Rightarrow>
   'n org_candidate list list \<Rightarrow> 'n label_candidate list list \<Rightarrow>
   error + ('n encoding \<times> SATSolver)" where
  "encodeSAT opt sat dat analysis circleCandidates orgCandidates labelCandidates =
     (case alloc_rows orgCandidates sat of (orgVs, sat1) \<Rightarrow>
      case alloc_rows labelCandidates sat1 of (labelVs, sat2) \<Rightarrow>
        if length orgVs < length (organizations dat) then Inl TypeError
        else
          (case circleCandidates of
             [] \<Rightarrow> Inl TypeError
           | circs # _ \<Rightarrow>
               if length labelVs < length circs then Inl TypeError
               else
                 (let sat3 = fold addClause
                       (exactly_one_each (length (organizations dat)) orgVs) sat2;
                      sat4 = fold addClause (exactly_one_each (length circs) labelVs) sat3;
                      sat5 = fold addClause
                       (overlap_clauses (length (organizations dat)) orgCandidates orgVs
                          (\<lambda>i pi j pj. positionsOverlap opt
                             (orgCandidates ! i ! pi) (orgCandidates ! j ! pj) 60)) sat4;
                      sat6 = fold addClause
                       (overlap_clauses (length circs) labelCandidates labelVs
                          (\<lambda>i pi j pj. labelsOverlap opt
                             (labelCandidates ! i ! pi) (name (circs ! i))
                             (labelCandidates ! j ! pj) (name (circs ! j)))) sat5;
                      sat7 = label_circle_block opt circs labelCandidates sat6
                  in Inr (\<lparr>orgVars = orgVs, labelVars = labelVs, circles = circs\<rparr>, sat7))))"

subsection \<open>extractSolution\<close>

text \<open>
  The test \<open>solution[vars[pi]] === true\<close>. An index beyond the row reads \<open>undefined\<close>, and
  so does \<open>solution[undefined]\<close> and \<open>solution\<close> at a negative number.
\<close>

definition selected :: "assignment \<Rightarrow> int list \<Rightarrow> nat \<Rightarrow> bool" where
  "selected solution vars pi =
     (pi < length vars \<and> 0 \<le> vars ! pi \<and> js_get solution (nat (vars ! pi)) = Some True)"

text \<open>
  The inner loop runs \<open>pi\<close> over the candidates of one entity and stops at the first
  selected one; the result is that index, if there is one.
\<close>

definition first_selected :: "assignment \<Rightarrow> int list \<Rightarrow> 'c list \<Rightarrow> nat option" where
  "first_selected solution vars candidates =
     find (selected solution vars) [0..<length candidates]"

text \<open>
  The body of the first \<open>forEach\<close>: \<open>orgCandidates[i].length\<close> throws when there is no row
  \<open>i\<close>, and \<open>orgVars[i][pi]\<close> throws when the loop is entered and there is no row of
  variables.
\<close>

definition place_org ::
  "assignment \<Rightarrow> 'n encoding \<Rightarrow> 'n org_candidate list list \<Rightarrow> nat \<Rightarrow>
   'n organization \<Rightarrow> error + 'n organization" where
  "place_org solution enc orgCandidates i org =
     (if length orgCandidates \<le> i then Inl TypeError
      else if orgCandidates ! i \<noteq> [] \<and> length (orgVars enc) \<le> i then Inl TypeError
      else
        (case first_selected solution (orgVars enc ! i) (orgCandidates ! i) of
           None \<Rightarrow> Inr org
         | Some pi \<Rightarrow>
             Inr (org\<lparr>org_x := Some (pos_x (orgCandidates ! i ! pi)),
                      org_y := Some (pos_y (orgCandidates ! i ! pi))\<rparr>)))"

definition place_label ::
  "assignment \<Rightarrow> 'n encoding \<Rightarrow> 'n label_candidate list list \<Rightarrow> nat \<Rightarrow>
   'n circle \<Rightarrow> error + 'n circle" where
  "place_label solution enc labelCandidates i circ =
     (if length labelCandidates \<le> i then Inl TypeError
      else if labelCandidates ! i \<noteq> [] \<and> length (labelVars enc) \<le> i then Inl TypeError
      else
        (case first_selected solution (labelVars enc ! i) (labelCandidates ! i) of
           None \<Rightarrow> Inr circ
         | Some pi \<Rightarrow>
             Inr (circ\<lparr>labelX := Some (pos_x (labelCandidates ! i ! pi)),
                       labelY := Some (pos_y (labelCandidates ! i ! pi))\<rparr>)))"

text \<open>\<open>forEach\<close> with the index, stopping at the first exception.\<close>

fun forEach_from :: "nat \<Rightarrow> (nat \<Rightarrow> 'a \<Rightarrow> error + 'a) \<Rightarrow> 'a list \<Rightarrow> error + 'a list" where
  "forEach_from i f [] = Inr []"
| "forEach_from i f (e # es) =
     (case f i e of
        Inl err \<Rightarrow> Inl err
      | Inr e' \<Rightarrow>
          (case forEach_from (Suc i) f es of
             Inl err \<Rightarrow> Inl err
           | Inr es' \<Rightarrow> Inr (e' # es')))"

definition extractSolution ::
  "assignment \<Rightarrow> 'n encoding \<Rightarrow> 'n data \<Rightarrow> 'n circle list list \<Rightarrow>
   'n org_candidate list list \<Rightarrow> 'n label_candidate list list \<Rightarrow> error + 'n layout" where
  "extractSolution solution enc dat circleCandidates orgCandidates labelCandidates =
     (case forEach_from 0 (place_org solution enc orgCandidates) (organizations dat) of
        Inl err \<Rightarrow> Inl err
      | Inr orgs \<Rightarrow>
          (case forEach_from 0 (place_label solution enc labelCandidates) (circles enc) of
             Inl err \<Rightarrow> Inl err
           | Inr circs \<Rightarrow> Inr \<lparr>layout_circles = circs, layout_organizations = orgs\<rparr>))"

subsection \<open>optimize\<close>

text \<open>
  \<open>optimize\<close> returns the layout of \<open>fallbackLayout\<close> or of \<open>extractSolution\<close>, or ends
  with the exception of \<open>encodeSAT\<close> or \<open>extractSolution\<close>. The model also returns which
  of the two it has called, in order.
\<close>

datatype call = Call_fallbackLayout | Call_extractSolution

definition optimize :: "('n, 'an) optimizer \<Rightarrow> 'n data \<Rightarrow> call list \<times> (error + 'n layout)" where
  "optimize opt dat =
     (let analysis = analyzeRelationships opt dat;
          circleCandidates = generateCircleCandidates opt analysis;
          orgCandidates = generateOrgCandidates opt (organizations dat) circleCandidates;
          labelCandidates = generateLabelCandidates opt circleCandidates;
          sat = new_SATSolver
      in case encodeSAT opt sat dat analysis circleCandidates orgCandidates labelCandidates of
           Inl err \<Rightarrow> ([], Inl err)
         | Inr (enc, sat1) \<Rightarrow>
             (case fst (solve sat1) of
                None \<Rightarrow> ([Call_fallbackLayout], Inr (fallbackLayout opt dat analysis))
              | Some solution \<Rightarrow>
                  ([Call_extractSolution],
                   extractSolution solution enc dat circleCandidates orgCandidates
                     labelCandidates)))"


subsection \<open>A sample run\<close>

text \<open>
  One circle with one label candidate, and two organizations: the first has two
  candidates, the second has one, which lies within 60 of the first candidate of the
  first. The geometric tests of the sample work on the horizontal distance.
\<close>

abbreviation (input) sample_circle :: "int circle" where
  "sample_circle \<equiv> \<lparr>index = 0, name = ''ml'', color = ''red'', circle_x = 0, circle_y = 0,
     circle_r = 80, labelX = None, labelY = None\<rparr>"

abbreviation (input) sample_org_candidates :: "int org_candidate list list" where
  "sample_org_candidates \<equiv>
     [[\<lparr>pos_x = 0, pos_y = 0, score = 9\<rparr>, \<lparr>pos_x = 1000, pos_y = 0, score = 5\<rparr>],
      [\<lparr>pos_x = 10, pos_y = 0, score = 7\<rparr>]]"

abbreviation (input) sample_label_candidates :: "int label_candidate list list" where
  "sample_label_candidates \<equiv> [[\<lparr>pos_x = 145, pos_y = 0, angle = 0\<rparr>]]"

abbreviation (input) sample_optimizer :: "(int, unit) optimizer" where
  "sample_optimizer \<equiv>
     \<lparr>analyzeRelationships = (\<lambda>d. ()),
      generateCircleCandidates = (\<lambda>an. [[sample_circle]]),
      generateOrgCandidates = (\<lambda>orgs cc. sample_org_candidates),
      generateLabelCandidates = (\<lambda>cc. sample_label_candidates),
      positionsOverlap = (\<lambda>p q d. \<bar>pos_x p - pos_x q\<bar> < d),
      labelsOverlap = (\<lambda>p t q u. False),
      labelOverlapsCircle = (\<lambda>p t c. True),
      fallbackLayout = (\<lambda>d an. \<lparr>layout_circles = [], layout_organizations = organizations d\<rparr>)\<rparr>"

abbreviation (input) sample_data :: "int data" where
  "sample_data \<equiv>
     \<lparr>categories = [\<lparr>cat_name = ''ml'', cat_color = ''red''\<rparr>],
      organizations =
        [\<lparr>org_name = ''A'', org_categories = [''ml''], org_x = None, org_y = None\<rparr>,
         \<lparr>org_name = ''B'', org_categories = [''ml''], org_x = None, org_y = None\<rparr>]\<rparr>"

section \<open>Termination of the search\<close>

lemma js_get_set: "js_get (js_set a i v) j = (if j = i then v else js_get a j)"
  by (auto simp: js_get_def js_set_def nth_append)

lemma chooseVar_Some:
  "chooseVar i n a = Some v \<Longrightarrow> i \<le> v \<and> v \<le> n \<and> js_get a v = None \<and> (\<forall>j. i \<le> j \<and> j < v \<longrightarrow> js_get a j \<noteq> None)"
proof (induction i n a rule: chooseVar.induct)
  case (1 i n a)
  show ?case
  proof (cases "i \<le> n \<and> js_get a i \<noteq> None")
    case True
    with "1.prems" have "chooseVar (Suc i) n a = Some v" by (simp add: chooseVar.simps [of i])
    with "1.IH" True have *: "Suc i \<le> v \<and> v \<le> n \<and> js_get a v = None \<and> (\<forall>j. Suc i \<le> j \<and> j < v \<longrightarrow> js_get a j \<noteq> None)" by simp
    have "js_get a j \<noteq> None" if "i \<le> j" "j < v" for j
    proof (cases "j = i")
      case True with \<open>i \<le> n \<and> js_get a i \<noteq> None\<close> show ?thesis by simp
    next
      case False
      with that have "Suc i \<le> j" by simp
      with * that show ?thesis by blast
    qed
    with * show ?thesis by auto
  next
    case False
    with "1.prems" show ?thesis by (auto simp: chooseVar.simps [of i] split: if_splits)
  qed
qed

lemma chooseVar_None:
  "chooseVar i n a = None \<Longrightarrow> i \<le> j \<Longrightarrow> j \<le> n \<Longrightarrow> js_get a j \<noteq> None"
proof (induction i n a rule: chooseVar.induct)
  case (1 i n a)
  from "1.prems" have in_range: "i \<le> n" by simp
  with "1.prems" have here: "js_get a i \<noteq> None" and rest: "chooseVar (Suc i) n a = None"
    by (auto simp: chooseVar.simps [of i] split: if_splits)
  show ?case
  proof (cases "j = i")
    case True with here show ?thesis by simp
  next
    case False
    with "1.prems" have "Suc i \<le> j" by simp
    with "1.IH" in_range here rest "1.prems" show ?thesis by simp
  qed
qed

lemma dpll_fail_entries_dom:
  "dpll_dom (s, a) \<Longrightarrow> fst (dpll s a) = None \<Longrightarrow> \<forall>i. js_get (snd (dpll s a)) i = js_get a i"
proof (induction s a rule: dpll.pinduct)
  case (1 s a)
  show ?case
  proof (cases "dpll_scan (clauses s) a True")
    case Conflict
    with "1.hyps" show ?thesis by (simp add: dpll.psimps)
  next
    case (Scanned allSatisfied)
    show ?thesis
    proof (cases allSatisfied)
      case True
      with Scanned "1.hyps" "1.prems" show ?thesis by (simp add: dpll.psimps)
    next
      case False
      show ?thesis
      proof (cases "chooseVar 1 (numVars s) a")
        case None
        with Scanned False "1.hyps" "1.prems" show ?thesis by (simp add: dpll.psimps)
      next
        case (Some v)
        obtain rT a1 where first: "dpll s (js_set a v (Some True)) = (rT, a1)"
          by (cases "dpll s (js_set a v (Some True))")
        obtain rF a2 where second: "dpll s (js_set a1 v (Some False)) = (rF, a2)"
          by (cases "dpll s (js_set a1 v (Some False))")
        from "1.prems" "1.hyps" Scanned False Some first second
        have rT: "rT = None" and rF: "rF = None" and res: "dpll s a = (None, js_set a2 v None)"
          by (auto simp: dpll.psimps split: option.splits)
        from "1.IH"(1) [OF Scanned False Some] first rT
        have e1: "js_get a1 j = js_get (js_set a v (Some True)) j" for j by simp
        from "1.IH"(2) [OF Scanned False Some first [symmetric] rT] second rF
        have e2: "js_get a2 j = js_get (js_set a1 v (Some False)) j" for j by simp
        from chooseVar_Some [OF Some] have "js_get a v = None" by simp
        with res e1 e2 show ?thesis by (simp add: js_get_set)
      qed
    qed
  qed
qed


lemma unassigned_card:
  "unassigned s a = card {i. 1 \<le> i \<and> i \<le> numVars s \<and> js_get a i = None}"
proof -
  have "distinct (filter (\<lambda>i. js_get a i = None) [1..<Suc (numVars s)])" by simp
  then have "unassigned s a = card (set (filter (\<lambda>i. js_get a i = None) [1..<Suc (numVars s)]))"
    by (simp only: unassigned_def distinct_card)
  also have "set (filter (\<lambda>i. js_get a i = None) [1..<Suc (numVars s)])
      = {i. 1 \<le> i \<and> i \<le> numVars s \<and> js_get a i = None}" by auto
  finally show ?thesis .
qed

lemma unassigned_decreases:
  assumes v: "1 \<le> v" "v \<le> numVars s" "js_get a v = None"
    and b: "\<forall>j. js_get b j = (if j = v then Some x else js_get a j)"
  shows "unassigned s b < unassigned s a"
proof -
  let ?A = "{i. 1 \<le> i \<and> i \<le> numVars s \<and> js_get a i = None}"
  let ?B = "{i. 1 \<le> i \<and> i \<le> numVars s \<and> js_get b i = None}"
  have fin: "finite ?A" by simp
  have sub: "?B \<subseteq> ?A" using b by (auto split: if_splits)
  have "v \<in> ?A" using v by simp
  moreover have "v \<notin> ?B" using b by simp
  ultimately have "?B \<subset> ?A" using sub by blast
  with fin show ?thesis unfolding unassigned_card by (rule psubset_card_mono)
qed

termination dpll
proof (relation "measure (\<lambda>(s, a). unassigned s a)")
  show "wf (measure (\<lambda>(s, a). unassigned s a))" by simp
next
  fix s :: SATSolver and a :: assignment and v :: nat
  assume "chooseVar 1 (numVars s) a = Some v"
  from chooseVar_Some [OF this]
  have "1 \<le> v" "v \<le> numVars s" "js_get a v = None" by simp_all
  then have "unassigned s (js_set a v (Some True)) < unassigned s a"
    by (rule unassigned_decreases) (simp add: js_get_set)
  then show "((s, js_set a v (Some True)), (s, a)) \<in> measure (\<lambda>(s, a). unassigned s a)"
    by simp
next
  fix s :: SATSolver and a a1 :: assignment and v :: nat and rT :: "assignment option"
  assume choose: "chooseVar 1 (numVars s) a = Some v"
    and first: "(rT, a1) = dpll s (js_set a v (Some True))"
    and rT: "rT = None"
    and dom: "dpll_dom (s, js_set a v (Some True))"
  from chooseVar_Some [OF choose]
  have v: "1 \<le> v" "v \<le> numVars s" "js_get a v = None" by simp_all
  from dpll_fail_entries_dom [OF dom] first [symmetric] rT
  have "\<forall>j. js_get a1 j = js_get (js_set a v (Some True)) j" by simp
  then have "\<forall>j. js_get (js_set a1 v (Some False)) j = (if j = v then Some False else js_get a j)"
    by (simp add: js_get_set)
  with v have "unassigned s (js_set a1 v (Some False)) < unassigned s a"
    by (rule unassigned_decreases)
  then show "((s, js_set a1 v (Some False)), (s, a)) \<in> measure (\<lambda>(s, a). unassigned s a)"
    by simp
qed

declare dpll.simps [simp del]


lemma lowest_unassigned_Some:
  "lowest_unassigned n a = Some v \<Longrightarrow> 1 \<le> v \<and> v \<le> n \<and> js_get a v = None \<and> (\<forall>j. 1 \<le> j \<and> j < v \<longrightarrow> js_get a j \<noteq> None)"
proof -
  assume "lowest_unassigned n a = Some v"
  then obtain rest where f: "filter (\<lambda>i. js_get a i = None) [1..<Suc n] = v # rest"
    by (auto simp: lowest_unassigned_def split: list.splits)
  then have "v \<in> set (filter (\<lambda>i. js_get a i = None) [1..<Suc n])" by simp
  then have v: "1 \<le> v" "v \<le> n" "js_get a v = None" by auto
  have "sorted (filter (\<lambda>i. js_get a i = None) [1..<Suc n])" by (intro sorted_wrt_filter sorted_upt)
  with f have le: "\<forall>w \<in> set (v # rest). v \<le> w" by auto
  have "js_get a j \<noteq> None" if "1 \<le> j" "j < v" for j
  proof
    assume "js_get a j = None"
    with that v have "j \<in> set (filter (\<lambda>i. js_get a i = None) [1..<Suc n])" by auto
    then have "j \<in> set (v # rest)" by (simp only: f)
    with le have "v \<le> j" by blast
    with that show False by simp
  qed
  with v show ?thesis by blast
qed

termination ref_search
  apply (relation "measure (\<lambda>(leaf, cs, n, a). unassigned \<lparr>clauses = cs, numVars = n\<rparr> a)")
    apply simp
   apply (auto dest!: lowest_unassigned_Some intro!: unassigned_decreases simp: js_get_set)
  done

declare ref_search.simps [simp del]

section \<open>Clause evaluation\<close>

lemma evalClause_loop_True:
  "evalClause_loop c a h = Some True \<longleftrightarrow> list_ex (lit_true a) c"
  by (induction c arbitrary: h) (auto simp: lit_true_def Let_def split: option.splits)

lemma evalClause_loop_False:
  "evalClause_loop c a h = Some False \<longleftrightarrow> \<not> h \<and> list_all (lit_false a) c"
  by (induction c arbitrary: h) (auto simp: lit_false_def Let_def split: option.splits)

lemma evalClause_True: "evalClause c a = Some True \<longleftrightarrow> clause_true a c"
  by (simp add: evalClause_def clause_true_def evalClause_loop_True)

lemma evalClause_False: "evalClause c a = Some False \<longleftrightarrow> list_all (lit_false a) c"
  by (simp add: evalClause_def evalClause_loop_False)

lemma dpll_scan_Conflict:
  "dpll_scan cs a f = Conflict \<longleftrightarrow> list_ex (\<lambda>c. list_all (lit_false a) c) cs"
proof (induction cs arbitrary: f)
  case Nil then show ?case by simp
next
  case (Cons c cs)
  show ?case
  proof (cases "evalClause c a")
    case None
    with Cons show ?thesis using evalClause_False [of c a] by simp
  next
    case (Some v)
    with Cons show ?thesis using evalClause_False [of c a] by (cases v) auto
  qed
qed

lemma dpll_scan_Scanned:
  "dpll_scan cs a f = Scanned b \<Longrightarrow> b = (f \<and> list_all (clause_true a) cs)"
proof (induction cs arbitrary: f)
  case Nil then show ?case by simp
next
  case (Cons c cs)
  show ?case
  proof (cases "evalClause c a")
    case None
    then have "\<not> clause_true a c" using evalClause_True [of c a] by simp
    with Cons.prems None Cons.IH [of False] show ?thesis by simp
  next
    case (Some v)
    with Cons.prems Cons.IH [of f] show ?thesis using evalClause_True [of c a] by (cases v) auto
  qed
qed


section \<open>The search, case by case\<close>

lemma dpll_induct_cases [case_names conflict satisfied leaf first second fail]:
  assumes conflict: "\<And>s a. dpll_scan (clauses s) a True = Conflict \<Longrightarrow> dpll s a = (None, a) \<Longrightarrow> P s a"
    and satisfied: "\<And>s a. dpll_scan (clauses s) a True = Scanned True \<Longrightarrow> dpll s a = (Some a, a) \<Longrightarrow> P s a"
    and leaf: "\<And>s a. dpll_scan (clauses s) a True = Scanned False \<Longrightarrow>
        chooseVar 1 (numVars s) a = None \<Longrightarrow> dpll s a = (Some a, a) \<Longrightarrow> P s a"
    and first: "\<And>s a v r a1. dpll_scan (clauses s) a True = Scanned False \<Longrightarrow>
        chooseVar 1 (numVars s) a = Some v \<Longrightarrow>
        dpll s (js_set a v (Some True)) = (Some r, a1) \<Longrightarrow>
        dpll s a = (Some r, a1) \<Longrightarrow> P s (js_set a v (Some True)) \<Longrightarrow> P s a"
    and second: "\<And>s a v a1 r a2. dpll_scan (clauses s) a True = Scanned False \<Longrightarrow>
        chooseVar 1 (numVars s) a = Some v \<Longrightarrow>
        dpll s (js_set a v (Some True)) = (None, a1) \<Longrightarrow>
        dpll s (js_set a1 v (Some False)) = (Some r, a2) \<Longrightarrow>
        dpll s a = (Some r, a2) \<Longrightarrow>
        P s (js_set a v (Some True)) \<Longrightarrow> P s (js_set a1 v (Some False)) \<Longrightarrow> P s a"
    and fail: "\<And>s a v a1 a2. dpll_scan (clauses s) a True = Scanned False \<Longrightarrow>
        chooseVar 1 (numVars s) a = Some v \<Longrightarrow>
        dpll s (js_set a v (Some True)) = (None, a1) \<Longrightarrow>
        dpll s (js_set a1 v (Some False)) = (None, a2) \<Longrightarrow>
        dpll s a = (None, js_set a2 v None) \<Longrightarrow>
        P s (js_set a v (Some True)) \<Longrightarrow> P s (js_set a1 v (Some False)) \<Longrightarrow> P s a"
  shows "P s a"
proof (induction s a rule: dpll.induct)
  case (1 s a)
  show ?case
  proof (cases "dpll_scan (clauses s) a True")
    case Conflict
    then have "dpll s a = (None, a)" by (simp add: dpll.simps [of s a])
    with Conflict show ?thesis by (rule conflict)
  next
    case (Scanned allSatisfied)
    show ?thesis
    proof (cases allSatisfied)
      case True
      with Scanned have scan: "dpll_scan (clauses s) a True = Scanned True" by simp
      then have "dpll s a = (Some a, a)" by (simp add: dpll.simps [of s a])
      with scan show ?thesis by (rule satisfied)
    next
      case False
      from Scanned False have scan: "dpll_scan (clauses s) a True = Scanned False" by simp
      show ?thesis
      proof (cases "chooseVar 1 (numVars s) a")
        case None
        with scan have "dpll s a = (Some a, a)" by (simp add: dpll.simps [of s a])
        with scan None show ?thesis by (rule leaf)
      next
        case (Some v)
        obtain rT a1 where one: "dpll s (js_set a v (Some True)) = (rT, a1)"
          by (cases "dpll s (js_set a v (Some True))")
        have ih1: "P s (js_set a v (Some True))"
          using "1.IH"(1) [OF Scanned False Some] .
        show ?thesis
        proof (cases rT)
          case (Some r)
          with one scan \<open>chooseVar 1 (numVars s) a = Some v\<close>
          have res: "dpll s a = (Some r, a1)" by (simp add: dpll.simps [of s a])
          from scan \<open>chooseVar 1 (numVars s) a = Some v\<close> one [unfolded Some] res ih1
          show ?thesis by (rule first)
        next
          case None
          note one' = one [unfolded None]
          obtain rF a2 where two: "dpll s (js_set a1 v (Some False)) = (rF, a2)"
            by (cases "dpll s (js_set a1 v (Some False))")
          have ih2: "P s (js_set a1 v (Some False))"
            using "1.IH"(2) [OF Scanned False \<open>chooseVar 1 (numVars s) a = Some v\<close> one' [symmetric] refl] .
          show ?thesis
          proof (cases rF)
            case (Some r)
            with one' two scan \<open>chooseVar 1 (numVars s) a = Some v\<close>
            have res: "dpll s a = (Some r, a2)" by (simp add: dpll.simps [of s a])
            from scan \<open>chooseVar 1 (numVars s) a = Some v\<close> one' two [unfolded Some] res ih1 ih2
            show ?thesis by (rule second)
          next
            case None
            with one' two scan \<open>chooseVar 1 (numVars s) a = Some v\<close>
            have res: "dpll s a = (None, js_set a2 v None)" by (simp add: dpll.simps [of s a])
            from scan \<open>chooseVar 1 (numVars s) a = Some v\<close> one' two [unfolded None] res ih1 ih2
            show ?thesis by (rule fail)
          qed
        qed
      qed
    qed
  qed
qed

lemma dpll_result_is_state: "fst (dpll s a) = Some r \<Longrightarrow> snd (dpll s a) = r"
  by (induction s a rule: dpll_induct_cases) simp_all

lemma dpll_fail_entries:
  "fst (dpll s a) = None \<Longrightarrow> js_get (snd (dpll s a)) i = js_get a i"
proof (induction s a arbitrary: i rule: dpll_induct_cases)
  case (fail s a v a1 a2)
  from chooseVar_Some [OF fail(2)] have "js_get a v = None" by simp
  with fail show ?case by (simp add: js_get_set)
qed simp_all

lemma js_set_length: "i < length a \<Longrightarrow> length (js_set a i v) = length a"
  by (simp add: js_set_def)

lemma dpll_length: "numVars s < length a \<Longrightarrow> length (snd (dpll s a)) = length a"
proof (induction s a rule: dpll_induct_cases)
  case (first s a v r a1)
  from chooseVar_Some [OF first(2)] first.prems have "v < length a" by simp
  with first show ?case by (simp add: js_set_length)
next
  case (second s a v a1 r a2)
  from chooseVar_Some [OF second(2)] second.prems have v: "v < length a" by simp
  with second have "length a1 = length a" by (simp add: js_set_length)
  with second v show ?case by (simp add: js_set_length)
next
  case (fail s a v a1 a2)
  from chooseVar_Some [OF fail(2)] fail.prems have v: "v < length a" by simp
  with fail have "length a1 = length a" by (simp add: js_set_length)
  with fail v show ?case by (simp add: js_set_length)
qed simp_all

lemma same_entries_eq:
  assumes "length a = length b" and "\<And>i. js_get a i = js_get b i"
  shows "a = b"
proof (rule nth_equalityI)
  show "length a = length b" by fact
next
  fix i assume "i < length a"
  with assms(1) assms(2) [of i] show "a ! i = b ! i" by (simp add: js_get_def)
qed

lemma dpll_fail_restores:
  assumes "numVars s < length a" and "fst (dpll s a) = None"
  shows "snd (dpll s a) = a"
  using assms by (intro same_entries_eq dpll_length dpll_fail_entries)


section \<open>Soundness and completeness of the search\<close>

lemma allocated_onlyD:
  "allocated_only s \<Longrightarrow> c \<in> set (clauses s) \<Longrightarrow> lit \<in> set c \<Longrightarrow>
     1 \<le> nat \<bar>lit\<bar> \<and> nat \<bar>lit\<bar> \<le> numVars s"
proof -
  assume "allocated_only s" "c \<in> set (clauses s)" "lit \<in> set c"
  then have "1 \<le> \<bar>lit\<bar> \<and> \<bar>lit\<bar> \<le> int (numVars s)"
    by (auto simp: allocated_only_def list_all_iff)
  then show ?thesis by linarith
qed

lemma undecided_has_unassigned:
  assumes "\<not> clause_true a c" "\<not> list_all (lit_false a) c"
  shows "\<exists>lit \<in> set c. js_get a (nat \<bar>lit\<bar>) = None"
proof -
  from assms(2) obtain lit where lit: "lit \<in> set c" "\<not> lit_false a lit"
    by (auto simp: list_all_iff)
  from assms(1) lit(1) have "\<not> lit_true a lit" by (auto simp: clause_true_def list_ex_iff)
  with lit(2) have "js_get a (nat \<bar>lit\<bar>) = None"
    by (auto simp: lit_true_def lit_false_def split: option.splits)
  with lit(1) show ?thesis by blast
qed

lemma leaf_unreachable:
  assumes alloc: "allocated_only s"
    and scan: "dpll_scan (clauses s) a True = Scanned False"
    and choose: "chooseVar 1 (numVars s) a = None"
  shows False
proof -
  from dpll_scan_Scanned [OF scan] obtain c where c: "c \<in> set (clauses s)" "\<not> clause_true a c"
    by (auto simp: list_all_iff)
  from scan have "dpll_scan (clauses s) a True \<noteq> Conflict" by simp
  with c(1) have "\<not> list_all (lit_false a) c" by (auto simp: dpll_scan_Conflict list_ex_iff)
  with c(2) obtain lit where lit: "lit \<in> set c" "js_get a (nat \<bar>lit\<bar>) = None"
    using undecided_has_unassigned by blast
  from allocated_onlyD [OF alloc c(1) lit(1)] chooseVar_None [OF choose] lit(2)
  show False by blast
qed

lemma dpll_sound:
  "allocated_only s \<Longrightarrow> fst (dpll s a) = Some r \<Longrightarrow> list_all (clause_true r) (clauses s)"
proof (induction s a rule: dpll_induct_cases)
  case (satisfied s a)
  with dpll_scan_Scanned [OF satisfied(1)] show ?case by simp
next
  case (leaf s a)
  with leaf_unreachable show ?case by blast
qed simp_all

lemma extends_lit_false: "extends \<sigma> a \<Longrightarrow> lit_false a lit \<Longrightarrow> \<not> holds \<sigma> lit"
  by (auto simp: extends_def lit_false_def holds_def split: option.splits if_splits)

lemma dpll_complete:
  "fst (dpll s a) = None \<Longrightarrow> extends \<sigma> a \<Longrightarrow> \<not> satisfies \<sigma> (clauses s)"
proof (induction s a rule: dpll_induct_cases)
  case (conflict s a)
  from conflict(1) obtain c where c: "c \<in> set (clauses s)" "list_all (lit_false a) c"
    by (auto simp: dpll_scan_Conflict list_ex_iff)
  from c(2) conflict.prems(2) have "\<not> list_ex (holds \<sigma>) c"
    by (auto simp: list_all_iff list_ex_iff dest: extends_lit_false)
  with c(1) show ?case by (auto simp: satisfies_def list_all_iff)
next
  case (fail s a v a1 a2)
  from chooseVar_Some [OF fail(2)] have v: "js_get a v = None" by simp
  have e1: "js_get a1 i = js_get (js_set a v (Some True)) i" for i
    using dpll_fail_entries [of s "js_set a v (Some True)" i] fail(3) by simp
  show ?case
  proof (cases "\<sigma> v")
    case True
    with fail.prems(2) have "extends \<sigma> (js_set a v (Some True))"
      by (auto simp: extends_def js_get_set split: if_splits)
    with fail(3) fail.IH(1) show ?thesis by simp
  next
    case False
    with fail.prems(2) e1 have "extends \<sigma> (js_set a1 v (Some False))"
      by (auto simp: extends_def js_get_set split: if_splits)
    with fail(4) fail.IH(2) show ?thesis by simp
  qed
qed simp_all

lemma solve_sound:
  "allocated_only s \<Longrightarrow> fst (solve s) = Some r \<Longrightarrow> \<forall>c \<in> set (clauses s). \<exists>lit \<in> set c. lit_true r lit"
  using dpll_sound [of s "replicate (numVars s + 1) None" r]
  by (simp add: solve_def list_all_iff clause_true_def list_ex_iff)

lemma js_get_replicate_None: "js_get (replicate n None) i = None"
  by (simp add: js_get_def)

lemma solve_complete:
  "fst (solve s) = None \<Longrightarrow> \<not> satisfies \<sigma> (clauses s)"
proof -
  assume "fst (solve s) = None"
  then have "fst (dpll s (replicate (numVars s + 1) None)) = None" by (simp only: solve_def)
  moreover have "extends \<sigma> (replicate (numVars s + 1) None)"
    by (simp only: extends_def js_get_replicate_None) simp
  ultimately show ?thesis by (rule dpll_complete)
qed


section \<open>Which variables a returned assignment defines\<close>

lemma assigned_upto_iff:
  "assigned_upto n a k \<longleftrightarrow> k \<le> n \<and> (\<forall>i. 1 \<le> i \<and> i \<le> n \<longrightarrow> (js_get a i \<noteq> None) = (i \<le> k))"
proof -
  have *: "set [1..<Suc n] = {i. 1 \<le> i \<and> i \<le> n}" by auto
  show ?thesis by (simp only: assigned_upto_def list_all_iff * Ball_def mem_Collect_eq)
qed

lemma assigned_upto_step:
  assumes pre: "assigned_upto n a k" and choose: "chooseVar 1 n a = Some v"
    and b: "\<And>i. js_get b i = (if i = v then Some x else js_get a i)"
  shows "assigned_upto n b (Suc k)"
proof -
  from chooseVar_Some [OF choose]
  have v: "1 \<le> v" "v \<le> n" "js_get a v = None" "\<forall>j. 1 \<le> j \<and> j < v \<longrightarrow> js_get a j \<noteq> None"
    by simp_all
  from pre have k: "k \<le> n" "\<And>i. 1 \<le> i \<Longrightarrow> i \<le> n \<Longrightarrow> (js_get a i \<noteq> None) = (i \<le> k)"
    by (simp_all add: assigned_upto_iff)
  from k(2) [of v] v have "k < v" by simp
  moreover have "v \<le> Suc k"
  proof (rule ccontr)
    assume "\<not> v \<le> Suc k"
    then have "1 \<le> Suc k" "Suc k < v" by simp_all
    with v(4) have "js_get a (Suc k) \<noteq> None" by blast
    with k(2) [of "Suc k"] \<open>Suc k < v\<close> v(2) show False by simp
  qed
  ultimately have "v = Suc k" by simp
  with v k b show ?thesis by (auto simp: assigned_upto_iff)
qed

lemma dpll_assigned_upto:
  "\<exists>k. assigned_upto (numVars s) a k \<Longrightarrow> fst (dpll s a) = Some r \<Longrightarrow>
     \<exists>k. assigned_upto (numVars s) r k"
proof (induction s a rule: dpll_induct_cases)
  case (first s a v r' a1)
  from first.prems(1) obtain k where "assigned_upto (numVars s) a k" ..
  from assigned_upto_step [OF this first(2), of "js_set a v (Some True)" True]
  have "assigned_upto (numVars s) (js_set a v (Some True)) (Suc k)" by (simp add: js_get_set)
  with first show ?case by auto
next
  case (second s a v a1 r' a2)
  from second.prems(1) obtain k where k: "assigned_upto (numVars s) a k" ..
  have "js_get a1 i = js_get (js_set a v (Some True)) i" for i
    using dpll_fail_entries [of s "js_set a v (Some True)" i] second(3) by simp
  then have "js_get (js_set a1 v (Some False)) i = (if i = v then Some False else js_get a i)" for i
    by (simp add: js_get_set)
  from assigned_upto_step [OF k second(2) this]
  have "assigned_upto (numVars s) (js_set a1 v (Some False)) (Suc k)" .
  with second show ?case by auto
qed simp_all

lemma dpll_all_assigned_or_satisfied:
  "fst (dpll s a) = Some r \<Longrightarrow>
     assigned_upto (numVars s) r (numVars s) \<or> list_all (clause_true r) (clauses s)"
proof (induction s a rule: dpll_induct_cases)
  case (satisfied s a)
  with dpll_scan_Scanned [OF satisfied(1)] show ?case by simp
next
  case (leaf s a)
  from chooseVar_None [OF leaf(2)] leaf(3) leaf.prems show ?case
    by (auto simp: assigned_upto_iff)
qed simp_all

lemma assigned_upto_unique: "assigned_upto n a k \<Longrightarrow> assigned_upto n a k' \<Longrightarrow> k = k'"
proof (rule ccontr)
  assume a: "assigned_upto n a k" "assigned_upto n a k'" and ne: "k \<noteq> k'"
  define m where "m = Suc (min k k')"
  from a ne have "1 \<le> m" "m \<le> n" by (auto simp: m_def assigned_upto_iff)
  with a have "(m \<le> k) = (m \<le> k')" by (auto simp: assigned_upto_iff)
  with ne show False by (auto simp: m_def)
qed

lemma solve_length: "fst (solve s) = Some r \<Longrightarrow> length r = numVars s + 1"
  using dpll_length [of s "replicate (numVars s + 1) None"]
    dpll_result_is_state [of s "replicate (numVars s + 1) None" r]
  by (simp add: solve_def)

lemma solve_assigned_upto:
  assumes "fst (solve s) = Some r"
  shows "\<exists>k. assigned_upto (numVars s) r k
           \<and> (k < numVars s \<longrightarrow> list_all (clause_true r) (clauses s))"
proof -
  have "assigned_upto (numVars s) (replicate (numVars s + 1) None) 0"
    by (simp only: assigned_upto_iff js_get_replicate_None) simp
  then have "\<exists>k. assigned_upto (numVars s) (replicate (numVars s + 1) None) k" ..
  from dpll_assigned_upto [OF this] assms obtain k where k: "assigned_upto (numVars s) r k"
    by (auto simp: solve_def)
  from assms dpll_all_assigned_or_satisfied [of s _ r]
  have "assigned_upto (numVars s) r (numVars s) \<or> list_all (clause_true r) (clauses s)"
    by (simp add: solve_def)
  with k assigned_upto_unique [OF k] show ?thesis by blast
qed


section \<open>The search refines the reference search\<close>

lemma chooseVar_filter:
  "chooseVar i n a =
     (case filter (\<lambda>j. js_get a j = None) [i..<Suc n] of [] \<Rightarrow> None | v # _ \<Rightarrow> Some v)"
proof (induction i n a rule: chooseVar.induct)
  case (1 i n a)
  show ?case
  proof (cases "i \<le> n")
    case True
    then have split: "[i..<Suc n] = i # [Suc i..<Suc n]" by (simp add: upt_conv_Cons)
    show ?thesis
    proof (cases "js_get a i = None")
      case True
      with \<open>i \<le> n\<close> show ?thesis
        by (simp only: split chooseVar.simps [of i]) (simp del: upt_Suc)
    next
      case False
      with \<open>i \<le> n\<close> "1.IH" show ?thesis
        by (simp only: split chooseVar.simps [of i]) (auto simp del: upt_Suc)
    qed
  next
    case False
    then show ?thesis by (simp add: chooseVar.simps [of i])
  qed
qed

lemma chooseVar_lowest: "chooseVar 1 n a = lowest_unassigned n a"
  by (simp only: chooseVar_filter lowest_unassigned_def)

lemma lit_false_not_true: "lit_false a lit \<Longrightarrow> \<not> lit_true a lit"
  by (auto simp: lit_false_def lit_true_def split: option.splits if_splits)

lemma violated_iff: "clause_status a c = Violated \<longleftrightarrow> list_all (lit_false a) c"
  by (auto simp: clause_status_def list_all_iff list_ex_iff dest: lit_false_not_true)

lemma satisfied_iff: "clause_status a c = Satisfied \<longleftrightarrow> clause_true a c"
  by (auto simp: clause_status_def clause_true_def)

lemma js_set_twice: "i < length a \<Longrightarrow> js_set (js_set a i v) i w = js_set a i w"
  by (simp add: js_set_def)

lemma scan_statuses:
  assumes "dpll_scan cs a True = Scanned b"
  shows "\<not> list_ex (\<lambda>c. clause_status a c = Violated) cs"
    and "list_all (\<lambda>c. clause_status a c = Satisfied) cs = b"
proof -
  from assms have "dpll_scan cs a True \<noteq> Conflict" by simp
  then show "\<not> list_ex (\<lambda>c. clause_status a c = Violated) cs"
    by (simp add: dpll_scan_Conflict violated_iff)
  from dpll_scan_Scanned [OF assms]
  show "list_all (\<lambda>c. clause_status a c = Satisfied) cs = b"
    by (simp add: satisfied_iff)
qed

lemma ref_search_conflict:
  "dpll_scan cs a True = Conflict \<Longrightarrow> ref_search leaf cs n a = None"
  by (subst ref_search.simps) (simp add: dpll_scan_Conflict violated_iff)

lemma ref_search_satisfied:
  assumes "dpll_scan cs a True = Scanned True"
  shows "ref_search leaf cs n a = Some a"
  by (subst ref_search.simps) (simp add: scan_statuses [OF assms])

lemma ref_search_leaf:
  assumes "dpll_scan cs a True = Scanned False" and "chooseVar 1 n a = None"
  shows "ref_search leaf cs n a = leaf a"
  by (subst ref_search.simps)
    (simp add: scan_statuses [OF assms(1)] assms(2) [unfolded chooseVar_lowest])

lemma ref_search_branch:
  assumes "dpll_scan cs a True = Scanned False" and "chooseVar 1 n a = Some v"
  shows "ref_search leaf cs n a =
       (case ref_search leaf cs n (js_set a v (Some True)) of
          Some model \<Rightarrow> Some model
        | None \<Rightarrow> ref_search leaf cs n (js_set a v (Some False)))"
  by (subst ref_search.simps)
    (simp add: scan_statuses [OF assms(1)] assms(2) [unfolded chooseVar_lowest])

lemma dpll_ref_search:
  "numVars s < length a \<Longrightarrow> allocated_only s \<or> leaf = Some \<Longrightarrow>
     fst (dpll s a) = ref_search leaf (clauses s) (numVars s) a"
proof (induction s a rule: dpll_induct_cases)
  case (conflict s a)
  then show ?case by (simp add: ref_search_conflict)
next
  case (satisfied s a)
  then show ?case by (simp add: ref_search_satisfied)
next
  case (leaf s a)
  from leaf.prems(2) show ?case
  proof
    assume "allocated_only s"
    from leaf_unreachable [OF this leaf(1,2)] show ?thesis ..
  next
    assume "leaf = Some"
    with leaf(1,2,3) show ?thesis by (simp add: ref_search_leaf)
  qed
next
  case (first s a v r a1)
  from chooseVar_Some [OF first(2)] first.prems(1) have "v < length a" by simp
  with first.prems(1) have "numVars s < length (js_set a v (Some True))"
    by (simp add: js_set_length)
  from first.IH [OF this first.prems(2)] first(3)
  have "ref_search leaf (clauses s) (numVars s) (js_set a v (Some True)) = Some r" by simp
  with first(4) show ?case by (simp add: ref_search_branch [OF first(1,2)])
next
  case (second s a v a1 r a2)
  from chooseVar_Some [OF second(2)] second.prems(1) have v: "v < length a" by simp
  with second.prems(1) have len: "numVars s < length (js_set a v (Some True))"
    by (simp add: js_set_length)
  from dpll_fail_restores [OF len] second(3) have a1: "a1 = js_set a v (Some True)" by simp
  with v have next_state: "js_set a1 v (Some False) = js_set a v (Some False)"
    by (simp add: js_set_twice)
  from second.IH(1) [OF len second.prems(2)] second(3)
  have one: "ref_search leaf (clauses s) (numVars s) (js_set a v (Some True)) = None" by simp
  from v second.prems(1) have "numVars s < length (js_set a1 v (Some False))"
    by (simp add: next_state js_set_length)
  from second.IH(2) [OF this second.prems(2)] second(4)
  have two: "ref_search leaf (clauses s) (numVars s) (js_set a v (Some False)) = Some r"
    by (simp add: next_state)
  from second(5) one two show ?case by (simp add: ref_search_branch [OF second(1,2)])
next
  case (fail s a v a1 a2)
  from chooseVar_Some [OF fail(2)] fail.prems(1) have v: "v < length a" by simp
  with fail.prems(1) have len: "numVars s < length (js_set a v (Some True))"
    by (simp add: js_set_length)
  from dpll_fail_restores [OF len] fail(3) have a1: "a1 = js_set a v (Some True)" by simp
  with v have next_state: "js_set a1 v (Some False) = js_set a v (Some False)"
    by (simp add: js_set_twice)
  from fail.IH(1) [OF len fail.prems(2)] fail(3)
  have one: "ref_search leaf (clauses s) (numVars s) (js_set a v (Some True)) = None" by simp
  from v fail.prems(1) have "numVars s < length (js_set a1 v (Some False))"
    by (simp add: next_state js_set_length)
  from fail.IH(2) [OF this fail.prems(2)] fail(4)
  have two: "ref_search leaf (clauses s) (numVars s) (js_set a v (Some False)) = None"
    by (simp add: next_state)
  from fail(5) one two show ?case by (simp add: ref_search_branch [OF fail(1,2)])
qed

lemma solve_ref_solve:
  "allocated_only s \<or> leaf = Some \<Longrightarrow> fst (solve s) = ref_solve leaf (clauses s) (numVars s)"
  by (simp add: solve_def ref_solve_def dpll_ref_search)

section \<open>The clauses of the encoder\<close>

lemma fold_addClause: "fold addClause cls s = s\<lparr>clauses := clauses s @ cls\<rparr>"
  by (induction cls arbitrary: s) (simp_all add: addClause_def)

lemma fold_unchanged: "fold (\<lambda>e s. s) es s = s"
  by (induction es) simp_all

lemma label_circle_block_unchanged: "label_circle_block opt circs labelCandidates s = s"
  by (simp add: label_circle_block_def fold_unchanged)

lemma alloc_row_props:
  "alloc_row ps s = (vs, s') \<Longrightarrow>
     length vs = length ps \<and> clauses s' = clauses s \<and> numVars s' = numVars s + length ps
     \<and> distinct vs \<and> (\<forall>v \<in> set vs. int (numVars s) < v \<and> v \<le> int (numVars s'))"
proof (induction ps arbitrary: s vs s')
  case Nil
  then show ?case by simp
next
  case (Cons p ps)
  obtain vs' s2 where rest: "alloc_row ps (snd (newVar s)) = (vs', s2)"
    by (cases "alloc_row ps (snd (newVar s))")
  with Cons.prems have vs: "vs = int (Suc (numVars s)) # vs'" and s': "s' = s2"
    by (simp_all add: newVar_def)
  from Cons.IH [OF rest]
  have ih: "length vs' = length ps" "clauses s2 = clauses s"
    "numVars s2 = Suc (numVars s) + length ps" "distinct vs'"
    "\<forall>v \<in> set vs'. int (Suc (numVars s)) < v \<and> v \<le> int (numVars s2)"
    by (auto simp: newVar_def)
  from ih(5) have "int (Suc (numVars s)) \<notin> set vs'" by auto
  with ih show ?case unfolding vs s' by auto
qed

lemma alloc_rows_props:
  "alloc_rows rows s = (vss, s') \<Longrightarrow>
     length vss = length rows \<and> clauses s' = clauses s \<and> numVars s \<le> numVars s'
     \<and> (\<forall>i < length rows. length (vss ! i) = length (rows ! i) \<and> distinct (vss ! i)
            \<and> (\<forall>v \<in> set (vss ! i). int (numVars s) < v \<and> v \<le> int (numVars s')))"
proof (induction rows arbitrary: s vss s')
  case Nil
  then show ?case by simp
next
  case (Cons row rows)
  obtain vs s1 where one: "alloc_row row s = (vs, s1)" by (cases "alloc_row row s")
  obtain vss' s2 where rest: "alloc_rows rows s1 = (vss', s2)" by (cases "alloc_rows rows s1")
  from Cons.prems one rest have vss: "vss = vs # vss'" and s': "s' = s2" by simp_all
  note r = alloc_row_props [OF one]
  note ih = Cons.IH [OF rest]
  from r ih have mono: "numVars s \<le> numVars s1" "numVars s1 \<le> numVars s2" by simp_all
  have "length (vss ! i) = length ((row # rows) ! i) \<and> distinct (vss ! i)
            \<and> (\<forall>v \<in> set (vss ! i). int (numVars s) < v \<and> v \<le> int (numVars s'))"
    if "i < length (row # rows)" for i
  proof (cases i)
    case 0
    with r mono show ?thesis unfolding vss s' by auto
  next
    case (Suc j)
    with that have "j < length rows" by simp
    with ih have "length (vss' ! j) = length (rows ! j)" "distinct (vss' ! j)"
      "\<forall>v \<in> set (vss' ! j). int (numVars s1) < v \<and> v \<le> int (numVars s2)" by simp_all
    with mono Suc show ?thesis unfolding vss s' by auto
  qed
  with r ih mono show ?case unfolding vss s' by simp
qed

lemma exactly_one_set:
  "set (exactly_one vars) =
     (if vars = [] then {}
      else insert vars {[- (vars ! p1), - (vars ! p2)] | p1 p2. p1 < p2 \<and> p2 < length vars})"
proof -
  have "set [[- (vars ! p1), - (vars ! p2)]. p1 \<leftarrow> [0..<length vars], p2 \<leftarrow> [p1 + 1..<length vars]]
      = {[- (vars ! p1), - (vars ! p2)] | p1 p2. p1 < p2 \<and> p2 < length vars}"
    (is "?L = ?R")
  proof
    show "?L \<subseteq> ?R" by (fastforce simp: Suc_le_eq)
    show "?R \<subseteq> ?L"
    proof
      fix c assume "c \<in> ?R"
      then obtain p1 p2 where "c = [- (vars ! p1), - (vars ! p2)]" "p1 < p2" "p2 < length vars"
        by blast
      then show "c \<in> ?L" by force
    qed
  qed
  then show ?thesis by (simp add: exactly_one_def)
qed

lemma exactly_one_each_set:
  "set (exactly_one_each n varRows) = (\<Union>i \<in> {..<n}. set (exactly_one (varRows ! i)))"
  by (auto simp: exactly_one_each_def)

lemma overlap_clauses_set:
  "set (overlap_clauses n candidates varRows conflict) =
     {[- (varRows ! i ! pi), - (varRows ! j ! pj)] | i j pi pj.
        i < j \<and> j < n \<and> pi < length (candidates ! i) \<and> pj < length (candidates ! j)
        \<and> conflict i pi j pj}"
  (is "?L = ?R")
proof
  show "?L \<subseteq> ?R" by (fastforce simp: overlap_clauses_def Suc_le_eq)
  show "?R \<subseteq> ?L"
  proof
    fix c assume "c \<in> ?R"
    then obtain i j pi pj where "c = [- (varRows ! i ! pi), - (varRows ! j ! pj)]"
      "i < j" "j < n" "pi < length (candidates ! i)" "pj < length (candidates ! j)"
      "conflict i pi j pj"
      by blast
    then show "c \<in> ?L"
      by (force simp: overlap_clauses_def)
  qed
qed


lemma encodeSAT_InrD:
  assumes "encodeSAT opt s0 dat an cc oc lc = Inr (enc, sat)"
  shows "\<exists>s1 s2 rest.
      alloc_rows oc s0 = (orgVars enc, s1) \<and> alloc_rows lc s1 = (labelVars enc, s2)
    \<and> cc = circles enc # rest
    \<and> length (organizations dat) \<le> length (orgVars enc)
    \<and> length (circles enc) \<le> length (labelVars enc)
    \<and> numVars sat = numVars s2
    \<and> clauses sat = clauses s2
        @ exactly_one_each (length (organizations dat)) (orgVars enc)
        @ exactly_one_each (length (circles enc)) (labelVars enc)
        @ overlap_clauses (length (organizations dat)) oc (orgVars enc)
            (\<lambda>i pi j pj. positionsOverlap opt (oc ! i ! pi) (oc ! j ! pj) 60)
        @ overlap_clauses (length (circles enc)) lc (labelVars enc)
            (\<lambda>i pi j pj. labelsOverlap opt (lc ! i ! pi) (name (circles enc ! i))
               (lc ! j ! pj) (name (circles enc ! j)))"
proof -
  obtain ov s1 where one: "alloc_rows oc s0 = (ov, s1)" by (cases "alloc_rows oc s0")
  obtain lv s2 where two: "alloc_rows lc s1 = (lv, s2)" by (cases "alloc_rows lc s1")
  from assms one two show ?thesis
    by (auto simp: encodeSAT_def Let_def fold_addClause label_circle_block_unchanged
        split: if_splits list.splits)
qed


lemma exactly_one_literals:
  "c \<in> set (exactly_one vars) \<Longrightarrow> lit \<in> set c \<Longrightarrow> \<bar>lit\<bar> \<in> abs ` set vars"
  by (auto simp: exactly_one_set split: if_splits)

lemma overlap_clauses_literals:
  assumes "c \<in> set (overlap_clauses n candidates varRows conflict)" and "lit \<in> set c"
    and "\<forall>i < n. length (varRows ! i) = length (candidates ! i)"
  shows "\<exists>i < n. \<bar>lit\<bar> \<in> abs ` set (varRows ! i)"
proof -
  from assms(1) obtain i j pi pj where
    ij: "i < j" "j < n" "pi < length (candidates ! i)" "pj < length (candidates ! j)"
    and c: "c = [- (varRows ! i ! pi), - (varRows ! j ! pj)]"
    unfolding overlap_clauses_set by blast
  from ij assms(3) have "varRows ! i ! pi \<in> set (varRows ! i)" "varRows ! j ! pj \<in> set (varRows ! j)"
    by simp_all
  then have "\<bar>- (varRows ! i ! pi)\<bar> \<in> abs ` set (varRows ! i)"
    "\<bar>- (varRows ! j ! pj)\<bar> \<in> abs ` set (varRows ! j)" by force+
  with c assms(2) ij show ?thesis by (auto intro: exI [of _ i] exI [of _ j])
qed

lemma encodeSAT_rows:
  assumes "encodeSAT opt s0 dat an cc oc lc = Inr (enc, sat)"
  shows "\<forall>i < length (organizations dat).
           length (orgVars enc ! i) = length (oc ! i)
         \<and> (\<forall>v \<in> set (orgVars enc ! i). int (numVars s0) < v \<and> v \<le> int (numVars sat))"
    and "\<forall>i < length (circles enc).
           length (labelVars enc ! i) = length (lc ! i)
         \<and> (\<forall>v \<in> set (labelVars enc ! i). int (numVars s0) < v \<and> v \<le> int (numVars sat))"
    and "numVars s0 \<le> numVars sat"
proof -
  from encodeSAT_InrD [OF assms] obtain s1 s2 where
    one: "alloc_rows oc s0 = (orgVars enc, s1)" and two: "alloc_rows lc s1 = (labelVars enc, s2)"
    and no: "length (organizations dat) \<le> length (orgVars enc)"
    and nc: "length (circles enc) \<le> length (labelVars enc)"
    and nv: "numVars sat = numVars s2"
    by blast
  note p1 = alloc_rows_props [OF one]
  note p2 = alloc_rows_props [OF two]
  from p1 p2 have mono: "numVars s0 \<le> numVars s1" "numVars s1 \<le> numVars s2" by simp_all
  with nv show "numVars s0 \<le> numVars sat" by simp
  show "\<forall>i < length (organizations dat).
           length (orgVars enc ! i) = length (oc ! i)
         \<and> (\<forall>v \<in> set (orgVars enc ! i). int (numVars s0) < v \<and> v \<le> int (numVars sat))"
  proof (intro allI impI)
    fix i assume "i < length (organizations dat)"
    with no p1 have i: "i < length oc" by simp
    with p1 have "length (orgVars enc ! i) = length (oc ! i)"
      "\<forall>v \<in> set (orgVars enc ! i). int (numVars s0) < v \<and> v \<le> int (numVars s1)" by simp_all
    with mono nv show "length (orgVars enc ! i) = length (oc ! i)
         \<and> (\<forall>v \<in> set (orgVars enc ! i). int (numVars s0) < v \<and> v \<le> int (numVars sat))"
      by auto
  qed
  show "\<forall>i < length (circles enc).
           length (labelVars enc ! i) = length (lc ! i)
         \<and> (\<forall>v \<in> set (labelVars enc ! i). int (numVars s0) < v \<and> v \<le> int (numVars sat))"
  proof (intro allI impI)
    fix i assume "i < length (circles enc)"
    with nc p2 have i: "i < length lc" by simp
    with p2 have "length (labelVars enc ! i) = length (lc ! i)"
      "\<forall>v \<in> set (labelVars enc ! i). int (numVars s1) < v \<and> v \<le> int (numVars s2)" by simp_all
    with mono nv show "length (labelVars enc ! i) = length (lc ! i)
         \<and> (\<forall>v \<in> set (labelVars enc ! i). int (numVars s0) < v \<and> v \<le> int (numVars sat))"
      by auto
  qed
qed

lemma encodeSAT_clauses:
  assumes "encodeSAT opt s0 dat an cc oc lc = Inr (enc, sat)"
  shows "set (clauses sat) = set (clauses s0)
        \<union> set (exactly_one_each (length (organizations dat)) (orgVars enc))
        \<union> set (exactly_one_each (length (circles enc)) (labelVars enc))
        \<union> set (overlap_clauses (length (organizations dat)) oc (orgVars enc)
            (\<lambda>i pi j pj. positionsOverlap opt (oc ! i ! pi) (oc ! j ! pj) 60))
        \<union> set (overlap_clauses (length (circles enc)) lc (labelVars enc)
            (\<lambda>i pi j pj. labelsOverlap opt (lc ! i ! pi) (name (circles enc ! i))
               (lc ! j ! pj) (name (circles enc ! j))))"
proof -
  from encodeSAT_InrD [OF assms] obtain s1 s2 where
    one: "alloc_rows oc s0 = (orgVars enc, s1)" and two: "alloc_rows lc s1 = (labelVars enc, s2)"
    and cl: "clauses sat = clauses s2
        @ exactly_one_each (length (organizations dat)) (orgVars enc)
        @ exactly_one_each (length (circles enc)) (labelVars enc)
        @ overlap_clauses (length (organizations dat)) oc (orgVars enc)
            (\<lambda>i pi j pj. positionsOverlap opt (oc ! i ! pi) (oc ! j ! pj) 60)
        @ overlap_clauses (length (circles enc)) lc (labelVars enc)
            (\<lambda>i pi j pj. labelsOverlap opt (lc ! i ! pi) (name (circles enc ! i))
               (lc ! j ! pj) (name (circles enc ! j)))"
    by blast
  from alloc_rows_props [OF one] alloc_rows_props [OF two]
  have "clauses s2 = clauses s0" by simp
  with cl show ?thesis by (simp add: Un_assoc)
qed

lemma allocated_only_iff:
  "allocated_only s \<longleftrightarrow>
     (\<forall>c \<in> set (clauses s). \<forall>lit \<in> set c. 1 \<le> \<bar>lit\<bar> \<and> \<bar>lit\<bar> \<le> int (numVars s))"
  by (simp add: allocated_only_def list_all_iff)

lemma encodeSAT_allocated_only:
  assumes enc: "encodeSAT opt s0 dat an cc oc lc = Inr (enc, sat)" and s0: "allocated_only s0"
  shows "allocated_only sat"
  unfolding allocated_only_iff
proof (intro ballI)
  fix c lit assume c: "c \<in> set (clauses sat)" and lit: "lit \<in> set c"
  note rows = encodeSAT_rows [OF enc]
  have row_ok: "1 \<le> \<bar>lit\<bar> \<and> \<bar>lit\<bar> \<le> int (numVars sat)"
    if "\<bar>lit\<bar> \<in> abs ` set row" "\<forall>v \<in> set row. int (numVars s0) < v \<and> v \<le> int (numVars sat)"
    for row
  proof -
    from that(1) obtain v where "v \<in> set row" "\<bar>lit\<bar> = \<bar>v\<bar>" by auto
    with that(2) show ?thesis by auto
  qed
  from c consider
    (old) "c \<in> set (clauses s0)"
    | (eo) "c \<in> set (exactly_one_each (length (organizations dat)) (orgVars enc))"
    | (el) "c \<in> set (exactly_one_each (length (circles enc)) (labelVars enc))"
    | (oo) "c \<in> set (overlap_clauses (length (organizations dat)) oc (orgVars enc)
            (\<lambda>i pi j pj. positionsOverlap opt (oc ! i ! pi) (oc ! j ! pj) 60))"
    | (ol) "c \<in> set (overlap_clauses (length (circles enc)) lc (labelVars enc)
            (\<lambda>i pi j pj. labelsOverlap opt (lc ! i ! pi) (name (circles enc ! i))
               (lc ! j ! pj) (name (circles enc ! j))))"
    unfolding encodeSAT_clauses [OF enc] by blast
  then show "1 \<le> \<bar>lit\<bar> \<and> \<bar>lit\<bar> \<le> int (numVars sat)"
  proof cases
    case old
    with s0 lit have "1 \<le> \<bar>lit\<bar> \<and> \<bar>lit\<bar> \<le> int (numVars s0)" by (auto simp: allocated_only_iff)
    with rows(3) show ?thesis by simp
  next
    case eo
    then obtain i where "i < length (organizations dat)" "\<bar>lit\<bar> \<in> abs ` set (orgVars enc ! i)"
      using lit by (auto simp: exactly_one_each_set dest: exactly_one_literals)
    with rows(1) show ?thesis by (intro row_ok [of "orgVars enc ! i"]) simp_all
  next
    case el
    then obtain i where "i < length (circles enc)" "\<bar>lit\<bar> \<in> abs ` set (labelVars enc ! i)"
      using lit by (auto simp: exactly_one_each_set dest: exactly_one_literals)
    with rows(2) show ?thesis by (intro row_ok [of "labelVars enc ! i"]) simp_all
  next
    case oo
    from overlap_clauses_literals [OF oo lit] rows(1)
    obtain i where "i < length (organizations dat)" "\<bar>lit\<bar> \<in> abs ` set (orgVars enc ! i)"
      by auto
    with rows(1) show ?thesis by (intro row_ok [of "orgVars enc ! i"]) simp_all
  next
    case ol
    from overlap_clauses_literals [OF ol lit] rows(2)
    obtain i where "i < length (circles enc)" "\<bar>lit\<bar> \<in> abs ` set (labelVars enc ! i)"
      by auto
    with rows(2) show ?thesis by (intro row_ok [of "labelVars enc ! i"]) simp_all
  qed
qed


section \<open>Properties of the SAT engine\<close>

text \<open>
  C6. A failed search leaks no state. If \<open>dpll\<close> returns \<open>null\<close>, the array reads at every
  index what it read when \<open>dpll\<close> was entered; and when the array has an entry for every
  allocated variable, as the array of \<open>solve\<close> has, it is the very same array as at entry.
  In particular the variable that this level would pick is \<open>undefined\<close> again.
\<close>

theorem dpll_failure_leaves_assignment:
  assumes "fst (dpll s a) = None"
  shows "(\<forall>i. js_get (snd (dpll s a)) i = js_get a i)
       \<and> (numVars s < length a \<longrightarrow> snd (dpll s a) = a)
       \<and> (\<forall>nextVar. chooseVar 1 (numVars s) a = Some nextVar \<longrightarrow>
            js_get (snd (dpll s a)) nextVar = None)"
proof (intro conjI allI impI)
  fix i show "js_get (snd (dpll s a)) i = js_get a i"
    using assms by (rule dpll_fail_entries)
next
  assume "numVars s < length a"
  then show "snd (dpll s a) = a" using assms by (rule dpll_fail_restores)
next
  fix nextVar assume "chooseVar 1 (numVars s) a = Some nextVar"
  from chooseVar_Some [OF this] have "js_get a nextVar = None" by simp
  with dpll_fail_entries [OF assms, of nextVar]
  show "js_get (snd (dpll s a)) nextVar = None" by simp
qed

theorem dpll_failure_leaves_assignment_witness:
  "fst (dpll \<lparr>clauses = [[1], [-1]], numVars = 1\<rparr> [None, None]) = None
   \<and> snd (dpll \<lparr>clauses = [[1], [-1]], numVars = 1\<rparr> [None, None]) = [None, None]"
proof -
  have failed: "fst (dpll \<lparr>clauses = [[1], [-1]], numVars = 1\<rparr> [None, None]) = None"
    by code_simp
  from dpll_failure_leaves_assignment [OF failed] failed show ?thesis by simp
qed

text \<open>
  C2. Soundness. When every literal of every clause names an allocated variable and
  \<open>solve\<close> returns an assignment, every clause contains a literal that evaluates to true
  under that assignment.
\<close>

theorem solve_soundness:
  assumes "allocated_only s" and "fst (solve s) = Some r"
  shows "\<forall>clause \<in> set (clauses s). \<exists>lit \<in> set clause. lit_true r lit"
  using assms by (rule solve_sound)

theorem solve_soundness_witness:
  "allocated_only \<lparr>clauses = [[1, 2], [-1, 2]], numVars = 2\<rparr>
   \<and> fst (solve \<lparr>clauses = [[1, 2], [-1, 2]], numVars = 2\<rparr>) = Some [None, Some True, Some True]
   \<and> (\<exists>lit \<in> set [1, 2]. lit_true [None, Some True, Some True] lit)
   \<and> (\<exists>lit \<in> set [-1, 2]. lit_true [None, Some True, Some True] lit)"
proof -
  have alloc: "allocated_only \<lparr>clauses = [[1, 2], [-1, 2]], numVars = 2\<rparr>"
    by code_simp
  have result: "fst (solve \<lparr>clauses = [[1, 2], [-1, 2]], numVars = 2\<rparr>) = Some [None, Some True, Some True]"
    by code_simp
  from solve_soundness [OF alloc result] alloc result show ?thesis by simp
qed

text \<open>
  C1. Completeness. When every literal of every clause names an allocated variable: if
  some total boolean assignment satisfies every clause, \<open>solve\<close> returns an assignment;
  and if \<open>solve\<close> returns \<open>null\<close>, no total boolean assignment satisfies every clause.
\<close>

theorem solve_completeness:
  assumes "allocated_only s"
  shows "((\<exists>\<sigma>. satisfies \<sigma> (clauses s)) \<longrightarrow> fst (solve s) \<noteq> None)
       \<and> (fst (solve s) = None \<longrightarrow> (\<forall>\<sigma>. \<not> satisfies \<sigma> (clauses s)))"
  using solve_complete [of s] by blast

theorem solve_completeness_witness:
  "allocated_only \<lparr>clauses = [[1, 2], [-1, 2]], numVars = 2\<rparr>
   \<and> satisfies (\<lambda>v. True) [[1, 2], [-1, 2]]
   \<and> fst (solve \<lparr>clauses = [[1, 2], [-1, 2]], numVars = 2\<rparr>) \<noteq> None
   \<and> allocated_only \<lparr>clauses = [[1], [-1]], numVars = 1\<rparr>
   \<and> fst (solve \<lparr>clauses = [[1], [-1]], numVars = 1\<rparr>) = None
   \<and> (\<forall>\<sigma>. \<not> satisfies \<sigma> [[1], [-1]])"
proof -
  have alloc: "allocated_only \<lparr>clauses = [[1, 2], [-1, 2]], numVars = 2\<rparr>"
    by code_simp
  have model: "satisfies (\<lambda>v. True) (clauses \<lparr>clauses = [[1, 2], [-1, 2]], numVars = 2\<rparr>)"
    by (simp add: satisfies_def holds_def)
  have alloc': "allocated_only \<lparr>clauses = [[1], [-1]], numVars = 1\<rparr>"
    by code_simp
  have failed: "fst (solve \<lparr>clauses = [[1], [-1]], numVars = 1\<rparr>) = None"
    by code_simp
  from solve_completeness [OF alloc] model
  have "fst (solve \<lparr>clauses = [[1, 2], [-1, 2]], numVars = 2\<rparr>) \<noteq> None" by blast
  moreover from solve_completeness [OF alloc'] failed
  have "\<forall>\<sigma>. \<not> satisfies \<sigma> [[1], [-1]]" by simp
  ultimately show ?thesis using alloc alloc' model failed by simp
qed

text \<open>
  C10. A literal that names no allocated variable goes unnoticed. With one variable and
  the single clause \<open>[5]\<close>, \<open>solve\<close> branches on variable 1, finds no variable left and
  returns the array, in which the clause has no true literal: the clause still evaluates
  to \<open>undefined\<close>.
\<close>

theorem solve_unallocated_literal:
  "\<not> allocated_only \<lparr>clauses = [[5]], numVars = 1\<rparr>
   \<and> fst (solve \<lparr>clauses = [[5]], numVars = 1\<rparr>) = Some [None, Some True]
   \<and> dpll_scan [[5]] [None, Some True] True = Scanned False
   \<and> chooseVar 1 1 [None, Some True] = None
   \<and> evalClause [5] [None, Some True] = None
   \<and> \<not> clause_true [None, Some True] [5]"
  by code_simp


text \<open>
  C3 (as amended). When \<open>solve\<close> returns an assignment, the array has one entry per
  allocated variable besides entry 0, and the variables with a boolean value are exactly
  an initial segment 1 to \<open>k\<close> of the allocated variables; the variables above \<open>k\<close> are
  left unassigned, which happens only when every clause already contains a literal that
  evaluates to true.
\<close>

theorem solve_assigns_initial_segment:
  assumes "fst (solve s) = Some r"
  shows "length r = numVars s + 1
       \<and> (\<exists>k \<le> numVars s.
            (\<forall>i. 1 \<le> i \<and> i \<le> k \<longrightarrow> js_get r i \<noteq> None)
          \<and> (\<forall>i. k < i \<longrightarrow> js_get r i = None)
          \<and> (k < numVars s \<longrightarrow>
               (\<forall>clause \<in> set (clauses s). \<exists>lit \<in> set clause. lit_true r lit)))"
proof -
  have len: "length r = numVars s + 1" using assms by (rule solve_length)
  from solve_assigned_upto [OF assms] obtain k where
    k: "assigned_upto (numVars s) r k"
    and sat: "k < numVars s \<longrightarrow> list_all (clause_true r) (clauses s)" by blast
  from k have kn: "k \<le> numVars s"
    and seg: "\<And>i. 1 \<le> i \<Longrightarrow> i \<le> numVars s \<Longrightarrow> (js_get r i \<noteq> None) = (i \<le> k)"
    by (simp_all add: assigned_upto_iff)
  have low: "js_get r i \<noteq> None" if "1 \<le> i" "i \<le> k" for i
    using seg [of i] that kn by simp
  have high: "js_get r i = None" if "k < i" for i
  proof (cases "i \<le> numVars s")
    case True
    with seg [of i] that show ?thesis by simp
  next
    case False
    with len show ?thesis by (simp add: js_get_def)
  qed
  from sat have "k < numVars s \<longrightarrow>
      (\<forall>clause \<in> set (clauses s). \<exists>lit \<in> set clause. lit_true r lit)"
    by (simp add: list_all_iff clause_true_def list_ex_iff)
  with len kn low high show ?thesis by blast
qed

theorem solve_assigns_initial_segment_witness:
  "fst (solve \<lparr>clauses = [[1]], numVars = 2\<rparr>) = Some [None, Some True, None]
   \<and> length [None, Some True, None :: bool option] = 2 + 1
   \<and> (\<exists>k \<le> (2::nat).
        (\<forall>i. 1 \<le> i \<and> i \<le> k \<longrightarrow> js_get [None, Some True, None] i \<noteq> None)
      \<and> (\<forall>i. k < i \<longrightarrow> js_get [None, Some True, None] i = None)
      \<and> (k < 2 \<longrightarrow> (\<forall>clause \<in> set [[1]]. \<exists>lit \<in> set clause. lit_true [None, Some True, None] lit)))"
proof -
  have result: "fst (solve \<lparr>clauses = [[1]], numVars = 2\<rparr>) = Some [None, Some True, None]"
    by code_simp
  from solve_assigns_initial_segment [OF result] result show ?thesis by simp
qed

text \<open>
  C3 as stated fails: with two variables and the single clause \<open>[1]\<close>, \<open>solve\<close> returns
  as soon as variable 1 is true, and variable 2 is \<open>undefined\<close> in the result.
\<close>

theorem solve_leaves_variable_unassigned:
  "fst (solve \<lparr>clauses = [[1]], numVars = 2\<rparr>) = Some [None, Some True, None]
   \<and> js_get [None, Some True, None] 2 = None"
  by code_simp

text \<open>
  C7. The branching policy. \<open>solve\<close> returns what the reference search returns from the
  all-unassigned array: the search that fails on a violated clause, stops when all
  clauses are satisfied, and otherwise takes the lowest unassigned variable, with true
  before false. This holds when a node with an undecided clause and no variable left
  answers with its assignment; and when the clauses name allocated variables only, no
  such node is reached and it holds whatever such a node would answer. The result of
  \<open>solve\<close> is thus a function of the clause list and the variable count.
\<close>

theorem solve_is_reference_search:
  "fst (solve s) = ref_solve Some (clauses s) (numVars s)
   \<and> (allocated_only s \<longrightarrow>
        (\<forall>leaf. fst (solve s) = ref_solve leaf (clauses s) (numVars s)))"
  using solve_ref_solve [of s] by blast

theorem solve_is_reference_search_witness:
  "allocated_only \<lparr>clauses = [[1, 2], [-1, 2]], numVars = 2\<rparr>
   \<and> fst (solve \<lparr>clauses = [[1, 2], [-1, 2]], numVars = 2\<rparr>)
     = ref_solve (\<lambda>a. None) [[1, 2], [-1, 2]] 2
   \<and> fst (solve \<lparr>clauses = [[5]], numVars = 1\<rparr>) = ref_solve Some [[5]] 1"
proof -
  have alloc: "allocated_only \<lparr>clauses = [[1, 2], [-1, 2]], numVars = 2\<rparr>"
    by code_simp
  from solve_is_reference_search [of "\<lparr>clauses = [[1, 2], [-1, 2]], numVars = 2\<rparr>",
      THEN conjunct2, rule_format, OF alloc, of "\<lambda>a. None"]
  have one: "fst (solve \<lparr>clauses = [[1, 2], [-1, 2]], numVars = 2\<rparr>)
     = ref_solve (\<lambda>a. None) [[1, 2], [-1, 2]] 2" by simp
  from solve_is_reference_search [of "\<lparr>clauses = [[5]], numVars = 1\<rparr>", THEN conjunct1]
  have two: "fst (solve \<lparr>clauses = [[5]], numVars = 1\<rparr>) = ref_solve Some [[5]] 1" by simp
  from alloc one two show ?thesis by (intro conjI)
qed

section \<open>Properties of the encoder and the decoder\<close>

lemma lit_true_pos: "0 < v \<Longrightarrow> lit_true a v = (js_get a (nat v) = Some True)"
  by (auto simp: lit_true_def split: option.splits)

lemma lit_true_neg: "0 < v \<Longrightarrow> lit_true a (- v) = (js_get a (nat v) = Some False)"
  by (auto simp: lit_true_def split: option.splits)

lemma exactly_one_row_true:
  assumes ne: "row \<noteq> []" and pos: "\<forall>v \<in> set row. 0 < v"
    and sat: "\<forall>c \<in> set (exactly_one row). \<exists>lit \<in> set c. lit_true a lit"
  shows "\<exists>p < length row. js_get a (nat (row ! p)) = Some True
           \<and> (\<forall>q < length row. js_get a (nat (row ! q)) = Some True \<longrightarrow> q = p)"
proof -
  from ne sat have "\<exists>lit \<in> set row. lit_true a lit" by (simp add: exactly_one_set)
  then obtain p where p: "p < length row" "lit_true a (row ! p)" by (auto simp: in_set_conv_nth)
  with pos have tp: "js_get a (nat (row ! p)) = Some True" by (simp add: lit_true_pos)
  have no_two: False
    if "p1 < p2" "p2 < length row" "js_get a (nat (row ! p1)) = Some True"
      "js_get a (nat (row ! p2)) = Some True" for p1 p2
  proof -
    from that(1,2) ne have "[- (row ! p1), - (row ! p2)] \<in> set (exactly_one row)"
      by (auto simp: exactly_one_set)
    with sat have "lit_true a (- (row ! p1)) \<or> lit_true a (- (row ! p2))" by fastforce
    moreover from that(1,2) pos have "0 < row ! p1" "0 < row ! p2" by simp_all
    ultimately show False using that(3,4) by (simp add: lit_true_neg)
  qed
  have "q = p" if "q < length row" "js_get a (nat (row ! q)) = Some True" for q
  proof (rule ccontr)
    assume "q \<noteq> p"
    then consider "q < p" | "p < q" by linarith
    then show False
    proof cases
      case 1 with no_two [of q p] that p(1) tp show False by simp
    next
      case 2 with no_two [of p q] that p(1) tp show False by simp
    qed
  qed
  with p(1) tp show ?thesis by blast
qed

lemma first_selected_unique:
  assumes "p < length candidates" and "selected a vars p"
    and "\<forall>q < length candidates. selected a vars q \<longrightarrow> q = p"
  shows "first_selected a vars candidates = Some p"
proof -
  from assms(1) have "p < length [0..<length candidates]" "[0..<length candidates] ! p = p"
    by simp_all
  moreover have "\<not> selected a vars ([0..<length candidates] ! j)" if "j < p" for j
  proof
    assume sel: "selected a vars ([0..<length candidates] ! j)"
    from that assms(1) have "j < length candidates" by simp
    with sel assms(3) have "j = p" by simp
    with that show False by simp
  qed
  ultimately show ?thesis using assms(2)
    unfolding first_selected_def find_Some_iff by (intro exI [of _ p]) simp
qed

lemma encoded_clause_true:
  assumes enc: "encodeSAT opt s0 dat an cc oc lc = Inr (enc, sat)" and s0: "allocated_only s0"
    and sol: "fst (solve sat) = Some a" and c: "c \<in> set (clauses sat)"
  shows "\<exists>lit \<in> set c. lit_true a lit"
  using solve_sound [OF encodeSAT_allocated_only [OF enc s0] sol] c by blast

lemma row_exactly_one:
  assumes enc: "encodeSAT opt s0 dat an cc oc lc = Inr (enc, sat)" and s0: "allocated_only s0"
    and sol: "fst (solve sat) = Some a"
    and row: "row \<noteq> []" "\<forall>v \<in> set row. 0 < v" "length row = length candidates"
    and cls: "set (exactly_one row) \<subseteq> set (clauses sat)"
  shows "\<exists>p < length candidates. js_get a (nat (row ! p)) = Some True
           \<and> (\<forall>q < length candidates. js_get a (nat (row ! q)) = Some True \<longrightarrow> q = p)
           \<and> first_selected a row candidates = Some p"
proof -
  from cls encoded_clause_true [OF enc s0 sol]
  have "\<forall>c \<in> set (exactly_one row). \<exists>lit \<in> set c. lit_true a lit" by blast
  from exactly_one_row_true [OF row(1,2) this] obtain p where
    p: "p < length row" "js_get a (nat (row ! p)) = Some True"
    "\<forall>q < length row. js_get a (nat (row ! q)) = Some True \<longrightarrow> q = p" by blast
  from p(1) row(2) have "0 < row ! p" by simp
  with p(1,2) have sel: "selected a row p" by (simp add: selected_def)
  have uniq: "\<forall>q < length candidates. selected a row q \<longrightarrow> q = p"
    using p(3) row(3) by (simp add: selected_def)
  from p(1) row(3) have bound: "p < length candidates" by simp
  from bound sel uniq have first: "first_selected a row candidates = Some p"
    by (rule first_selected_unique)
  from p(3) row(3)
  have "\<forall>q < length candidates. js_get a (nat (row ! q)) = Some True \<longrightarrow> q = p" by simp
  with bound p(2) first show ?thesis by blast
qed

text \<open>
  C4. Exactly one selector per entity. Let \<open>encodeSAT\<close> fill a solver whose clauses so far
  name allocated variables only (the fresh solver of \<open>optimize\<close> has none), and let
  \<open>solve\<close> return an assignment. Then every organization with a non-empty candidate list
  has exactly one candidate whose selector variable is \<open>true\<close>, and the loop of
  \<open>extractSolution\<close> stops at that candidate; the same holds for the label of every
  circle.
\<close>

theorem encodeSAT_exactly_one:
  assumes enc: "encodeSAT opt s0 dat an cc oc lc = Inr (enc, sat)" and s0: "allocated_only s0"
    and sol: "fst (solve sat) = Some a"
  shows "(\<forall>i < length (organizations dat). oc ! i \<noteq> [] \<longrightarrow>
            (\<exists>p < length (oc ! i). js_get a (nat (orgVars enc ! i ! p)) = Some True
               \<and> (\<forall>q < length (oc ! i). js_get a (nat (orgVars enc ! i ! q)) = Some True \<longrightarrow> q = p)
               \<and> first_selected a (orgVars enc ! i) (oc ! i) = Some p))
       \<and> (\<forall>i < length (circles enc). lc ! i \<noteq> [] \<longrightarrow>
            (\<exists>p < length (lc ! i). js_get a (nat (labelVars enc ! i ! p)) = Some True
               \<and> (\<forall>q < length (lc ! i). js_get a (nat (labelVars enc ! i ! q)) = Some True \<longrightarrow> q = p)
               \<and> first_selected a (labelVars enc ! i) (lc ! i) = Some p))"
proof (intro conjI allI impI)
  note rows = encodeSAT_rows [OF enc]
  note cls = encodeSAT_clauses [OF enc]
  {
    fix i assume i: "i < length (organizations dat)" and ne: "oc ! i \<noteq> []"
    from rows(1) i have len: "length (orgVars enc ! i) = length (oc ! i)"
      and bounds: "\<forall>v \<in> set (orgVars enc ! i). int (numVars s0) < v" by simp_all
    have pos: "\<forall>v \<in> set (orgVars enc ! i). 0 < v"
    proof
      fix v assume "v \<in> set (orgVars enc ! i)"
      with bounds have "int (numVars s0) < v" by simp
      then show "0 < v" by simp
    qed
    from len ne have nonempty: "orgVars enc ! i \<noteq> []" by auto
    from i have sub: "set (exactly_one (orgVars enc ! i)) \<subseteq> set (clauses sat)"
      unfolding cls exactly_one_each_set by blast
    from nonempty pos len sub show "\<exists>p < length (oc ! i). js_get a (nat (orgVars enc ! i ! p)) = Some True
               \<and> (\<forall>q < length (oc ! i). js_get a (nat (orgVars enc ! i ! q)) = Some True \<longrightarrow> q = p)
               \<and> first_selected a (orgVars enc ! i) (oc ! i) = Some p"
      by (rule row_exactly_one [OF enc s0 sol])
  }
  {
    fix i assume i: "i < length (circles enc)" and ne: "lc ! i \<noteq> []"
    from rows(2) i have len: "length (labelVars enc ! i) = length (lc ! i)"
      and bounds: "\<forall>v \<in> set (labelVars enc ! i). int (numVars s0) < v" by simp_all
    have pos: "\<forall>v \<in> set (labelVars enc ! i). 0 < v"
    proof
      fix v assume "v \<in> set (labelVars enc ! i)"
      with bounds have "int (numVars s0) < v" by simp
      then show "0 < v" by simp
    qed
    from len ne have nonempty: "labelVars enc ! i \<noteq> []" by auto
    from i have sub: "set (exactly_one (labelVars enc ! i)) \<subseteq> set (clauses sat)"
      unfolding cls exactly_one_each_set by blast
    from nonempty pos len sub show "\<exists>p < length (lc ! i). js_get a (nat (labelVars enc ! i ! p)) = Some True
               \<and> (\<forall>q < length (lc ! i). js_get a (nat (labelVars enc ! i ! q)) = Some True \<longrightarrow> q = p)
               \<and> first_selected a (labelVars enc ! i) (lc ! i) = Some p"
      by (rule row_exactly_one [OF enc s0 sol])
  }
qed


theorem encodeSAT_exactly_one_witness:
  "encodeSAT sample_optimizer new_SATSolver sample_data () [[sample_circle]]
       sample_org_candidates sample_label_candidates
     = Inr (\<lparr>orgVars = [[1, 2], [3]], labelVars = [[4]], circles = [sample_circle]\<rparr>,
            \<lparr>clauses = [[1, 2], [- 1, - 2], [3], [4], [- 1, - 3]], numVars = 4\<rparr>)
   \<and> allocated_only new_SATSolver
   \<and> fst (solve \<lparr>clauses = [[1, 2], [- 1, - 2], [3], [4], [- 1, - 3]], numVars = 4\<rparr>)
     = Some [None, Some False, Some True, Some True, Some True]
   \<and> (\<exists>p < length (sample_org_candidates ! 0).
         js_get [None, Some False, Some True, Some True, Some True]
           (nat (orgVars \<lparr>orgVars = [[1, 2], [3]], labelVars = [[4]],
                   circles = [sample_circle]\<rparr> ! 0 ! p)) = Some True
       \<and> (\<forall>q < length (sample_org_candidates ! 0).
             js_get [None, Some False, Some True, Some True, Some True]
               (nat (orgVars \<lparr>orgVars = [[1, 2], [3]], labelVars = [[4]],
                       circles = [sample_circle]\<rparr> ! 0 ! q)) = Some True
             \<longrightarrow> q = p)
       \<and> first_selected [None, Some False, Some True, Some True, Some True]
            (orgVars \<lparr>orgVars = [[1, 2], [3]], labelVars = [[4]],
               circles = [sample_circle]\<rparr> ! 0)
            (sample_org_candidates ! 0) = Some p)"
proof -
  have enc: "encodeSAT sample_optimizer new_SATSolver sample_data () [[sample_circle]]
       sample_org_candidates sample_label_candidates
     = Inr (\<lparr>orgVars = [[1, 2], [3]], labelVars = [[4]], circles = [sample_circle]\<rparr>,
            \<lparr>clauses = [[1, 2], [- 1, - 2], [3], [4], [- 1, - 3]], numVars = 4\<rparr>)"
    by code_simp
  have alloc: "allocated_only new_SATSolver" by code_simp
  have sol: "fst (solve \<lparr>clauses = [[1, 2], [- 1, - 2], [3], [4], [- 1, - 3]], numVars = 4\<rparr>)
     = Some [None, Some False, Some True, Some True, Some True]"
    by code_simp
  have first_org: "0 < length (organizations sample_data)" by simp
  have candidates: "sample_org_candidates ! 0 \<noteq> []" by simp
  note one = encodeSAT_exactly_one [OF enc alloc sol, THEN conjunct1, rule_format,
      OF first_org candidates]
  from enc alloc sol one show ?thesis by (intro conjI)
qed

lemma row_entry_bound:
  assumes "\<forall>i < n. length (varRows ! i) = length (candidates ! i)
             \<and> (\<forall>v \<in> set (varRows ! i). lo < v \<and> v \<le> hi)"
    and "i < n" and "p < length (candidates ! i)"
  shows "lo < varRows ! i ! p"
proof -
  from assms have "varRows ! i ! p \<in> set (varRows ! i)" by simp
  with assms(1,2) show ?thesis by blast
qed

text \<open>
  C5. Conflicting candidates are never chosen together. Under the same conditions, for
  two organizations \<open>i < j\<close> and candidates \<open>pi\<close>, \<open>pj\<close> of theirs for which
  \<open>positionsOverlap\<close> with threshold 60 answers true, the two selector variables are not
  both \<open>true\<close> in the returned assignment; and likewise for the labels of two circles
  \<open>i < j\<close> and \<open>labelsOverlap\<close>. The tests are made in this order of arguments, as
  \<open>encodeSAT\<close> makes them.
\<close>

theorem encodeSAT_mutual_exclusion:
  assumes enc: "encodeSAT opt s0 dat an cc oc lc = Inr (enc, sat)" and s0: "allocated_only s0"
    and sol: "fst (solve sat) = Some a"
  shows "(\<forall>i j pi pj. i < j \<and> j < length (organizations dat)
            \<and> pi < length (oc ! i) \<and> pj < length (oc ! j)
            \<and> positionsOverlap opt (oc ! i ! pi) (oc ! j ! pj) 60 \<longrightarrow>
            \<not> (js_get a (nat (orgVars enc ! i ! pi)) = Some True
               \<and> js_get a (nat (orgVars enc ! j ! pj)) = Some True))
       \<and> (\<forall>i j pi pj. i < j \<and> j < length (circles enc)
            \<and> pi < length (lc ! i) \<and> pj < length (lc ! j)
            \<and> labelsOverlap opt (lc ! i ! pi) (name (circles enc ! i))
                 (lc ! j ! pj) (name (circles enc ! j)) \<longrightarrow>
            \<not> (js_get a (nat (labelVars enc ! i ! pi)) = Some True
               \<and> js_get a (nat (labelVars enc ! j ! pj)) = Some True))"
proof (intro conjI allI impI)
  note rows = encodeSAT_rows [OF enc]
  note cls = encodeSAT_clauses [OF enc]
  have excluded: "\<not> (js_get a (nat v) = Some True \<and> js_get a (nat w) = Some True)"
    if "[- v, - w] \<in> set (clauses sat)" "int (numVars s0) < v" "int (numVars s0) < w" for v w
  proof -
    from encoded_clause_true [OF enc s0 sol that(1)]
    have "lit_true a (- v) \<or> lit_true a (- w)" by simp
    moreover from that(2,3) have "0 < v" "0 < w" by simp_all
    ultimately show ?thesis by (auto simp: lit_true_neg)
  qed
  {
    fix i j pi pj
    assume h: "i < j \<and> j < length (organizations dat)
            \<and> pi < length (oc ! i) \<and> pj < length (oc ! j)
            \<and> positionsOverlap opt (oc ! i ! pi) (oc ! j ! pj) 60"
    then have "[- (orgVars enc ! i ! pi), - (orgVars enc ! j ! pj)] \<in> set (clauses sat)"
      unfolding cls overlap_clauses_set by blast
    moreover from h have "int (numVars s0) < orgVars enc ! i ! pi"
      by (intro row_entry_bound [OF rows(1)]) simp_all
    moreover from h have "int (numVars s0) < orgVars enc ! j ! pj"
      by (intro row_entry_bound [OF rows(1)]) simp_all
    ultimately show "\<not> (js_get a (nat (orgVars enc ! i ! pi)) = Some True
               \<and> js_get a (nat (orgVars enc ! j ! pj)) = Some True)"
      by (rule excluded)
  }
  {
    fix i j pi pj
    assume h: "i < j \<and> j < length (circles enc)
            \<and> pi < length (lc ! i) \<and> pj < length (lc ! j)
            \<and> labelsOverlap opt (lc ! i ! pi) (name (circles enc ! i))
                 (lc ! j ! pj) (name (circles enc ! j))"
    then have "[- (labelVars enc ! i ! pi), - (labelVars enc ! j ! pj)] \<in> set (clauses sat)"
      unfolding cls overlap_clauses_set by blast
    moreover from h have "int (numVars s0) < labelVars enc ! i ! pi"
      by (intro row_entry_bound [OF rows(2)]) simp_all
    moreover from h have "int (numVars s0) < labelVars enc ! j ! pj"
      by (intro row_entry_bound [OF rows(2)]) simp_all
    ultimately show "\<not> (js_get a (nat (labelVars enc ! i ! pi)) = Some True
               \<and> js_get a (nat (labelVars enc ! j ! pj)) = Some True)"
      by (rule excluded)
  }
qed


theorem encodeSAT_mutual_exclusion_witness:
  "encodeSAT sample_optimizer new_SATSolver sample_data () [[sample_circle]]
       sample_org_candidates sample_label_candidates
     = Inr (\<lparr>orgVars = [[1, 2], [3]], labelVars = [[4]], circles = [sample_circle]\<rparr>,
            \<lparr>clauses = [[1, 2], [- 1, - 2], [3], [4], [- 1, - 3]], numVars = 4\<rparr>)
   \<and> allocated_only new_SATSolver
   \<and> fst (solve \<lparr>clauses = [[1, 2], [- 1, - 2], [3], [4], [- 1, - 3]], numVars = 4\<rparr>)
     = Some [None, Some False, Some True, Some True, Some True]
   \<and> positionsOverlap sample_optimizer
        (sample_org_candidates ! 0 ! 0) (sample_org_candidates ! 1 ! 0) 60
   \<and> \<not> (js_get [None, Some False, Some True, Some True, Some True]
           (nat (orgVars \<lparr>orgVars = [[1, 2], [3]], labelVars = [[4]],
                   circles = [sample_circle]\<rparr> ! 0 ! 0)) = Some True
        \<and> js_get [None, Some False, Some True, Some True, Some True]
           (nat (orgVars \<lparr>orgVars = [[1, 2], [3]], labelVars = [[4]],
                   circles = [sample_circle]\<rparr> ! 1 ! 0)) = Some True)"
proof -
  have enc: "encodeSAT sample_optimizer new_SATSolver sample_data () [[sample_circle]]
       sample_org_candidates sample_label_candidates
     = Inr (\<lparr>orgVars = [[1, 2], [3]], labelVars = [[4]], circles = [sample_circle]\<rparr>,
            \<lparr>clauses = [[1, 2], [- 1, - 2], [3], [4], [- 1, - 3]], numVars = 4\<rparr>)"
    by code_simp
  have alloc: "allocated_only new_SATSolver" by code_simp
  have sol: "fst (solve \<lparr>clauses = [[1, 2], [- 1, - 2], [3], [4], [- 1, - 3]], numVars = 4\<rparr>)
     = Some [None, Some False, Some True, Some True, Some True]"
    by code_simp
  have overlap: "positionsOverlap sample_optimizer
        (sample_org_candidates ! 0 ! 0) (sample_org_candidates ! 1 ! 0) 60"
    by simp
  have pair: "0 < (1::nat) \<and> 1 < length (organizations sample_data)
      \<and> 0 < length (sample_org_candidates ! 0) \<and> 0 < length (sample_org_candidates ! 1)
      \<and> positionsOverlap sample_optimizer
           (sample_org_candidates ! 0 ! 0) (sample_org_candidates ! 1 ! 0) 60"
    by simp
  note apart = encodeSAT_mutual_exclusion [OF enc alloc sol, THEN conjunct1, rule_format,
      OF pair]
  from enc alloc sol overlap apart show ?thesis by (intro conjI)
qed

text \<open>
  C8. The block of \<open>encodeSAT\<close> that compares labels with circles adds no clause: it
  leaves the solver as it finds it, whatever \<open>labelOverlapsCircle\<close> answers, and so the
  result of \<open>encodeSAT\<close> is the same for every such test, also for one that reports every
  label candidate as lying over a circle.
\<close>

theorem label_circle_block_adds_no_clause:
  "label_circle_block opt circs labelCandidates sat = sat
   \<and> encodeSAT (opt\<lparr>labelOverlapsCircle := test\<rparr>) sat dat an cc oc lc
     = encodeSAT opt sat dat an cc oc lc"
  by (simp add: label_circle_block_unchanged encodeSAT_def Let_def split: prod.splits list.splits)

text \<open>
  C9. \<open>optimize\<close> after \<open>encodeSAT\<close> has returned. If \<open>solve\<close> returns \<open>null\<close>, \<open>optimize\<close>
  returns the layout of \<open>fallbackLayout\<close> and the only call it makes of the two is that
  of \<open>fallbackLayout\<close>; if \<open>solve\<close> returns an assignment, \<open>optimize\<close> returns what
  \<open>extractSolution\<close> returns for it and the only call is that of \<open>extractSolution\<close>.
\<close>

theorem optimize_dispatch:
  fixes opt :: "('n, 'an) optimizer" and dat :: "'n data"
  defines "analysis \<equiv> analyzeRelationships opt dat"
  defines "cc \<equiv> generateCircleCandidates opt analysis"
  defines "oc \<equiv> generateOrgCandidates opt (organizations dat) cc"
  defines "lc \<equiv> generateLabelCandidates opt cc"
  assumes enc: "encodeSAT opt new_SATSolver dat analysis cc oc lc = Inr (enc, sat)"
  shows "(fst (solve sat) = None \<longrightarrow>
            optimize opt dat = ([Call_fallbackLayout], Inr (fallbackLayout opt dat analysis)))
       \<and> (\<forall>solution. fst (solve sat) = Some solution \<longrightarrow>
            optimize opt dat =
              ([Call_extractSolution], extractSolution solution enc dat cc oc lc))"
  using enc unfolding analysis_def cc_def oc_def lc_def
  by (simp add: optimize_def Let_def)

theorem optimize_dispatch_witness:
  "optimize sample_optimizer sample_data =
     ([Call_extractSolution],
      extractSolution [None, Some False, Some True, Some True, Some True]
        \<lparr>orgVars = [[1, 2], [3]], labelVars = [[4]], circles = [sample_circle]\<rparr>
        sample_data [[sample_circle]] sample_org_candidates sample_label_candidates)
   \<and> optimize (sample_optimizer\<lparr>positionsOverlap := (\<lambda>p q d. True)\<rparr>) sample_data =
     ([Call_fallbackLayout],
      Inr \<lparr>layout_circles = [], layout_organizations = organizations sample_data\<rparr>)"
proof -
  have enc: "encodeSAT sample_optimizer new_SATSolver sample_data
       (analyzeRelationships sample_optimizer sample_data)
       (generateCircleCandidates sample_optimizer
          (analyzeRelationships sample_optimizer sample_data))
       (generateOrgCandidates sample_optimizer (organizations sample_data)
          (generateCircleCandidates sample_optimizer
             (analyzeRelationships sample_optimizer sample_data)))
       (generateLabelCandidates sample_optimizer
          (generateCircleCandidates sample_optimizer
             (analyzeRelationships sample_optimizer sample_data)))
     = Inr (\<lparr>orgVars = [[1, 2], [3]], labelVars = [[4]], circles = [sample_circle]\<rparr>,
            \<lparr>clauses = [[1, 2], [- 1, - 2], [3], [4], [- 1, - 3]], numVars = 4\<rparr>)"
    by code_simp
  have sol: "fst (solve \<lparr>clauses = [[1, 2], [- 1, - 2], [3], [4], [- 1, - 3]], numVars = 4\<rparr>)
     = Some [None, Some False, Some True, Some True, Some True]"
    by code_simp
  have enc': "encodeSAT (sample_optimizer\<lparr>positionsOverlap := (\<lambda>p q d. True)\<rparr>)
       new_SATSolver sample_data
       (analyzeRelationships (sample_optimizer\<lparr>positionsOverlap := (\<lambda>p q d. True)\<rparr>) sample_data)
       (generateCircleCandidates (sample_optimizer\<lparr>positionsOverlap := (\<lambda>p q d. True)\<rparr>)
          (analyzeRelationships (sample_optimizer\<lparr>positionsOverlap := (\<lambda>p q d. True)\<rparr>) sample_data))
       (generateOrgCandidates (sample_optimizer\<lparr>positionsOverlap := (\<lambda>p q d. True)\<rparr>)
          (organizations sample_data)
          (generateCircleCandidates (sample_optimizer\<lparr>positionsOverlap := (\<lambda>p q d. True)\<rparr>)
             (analyzeRelationships (sample_optimizer\<lparr>positionsOverlap := (\<lambda>p q d. True)\<rparr>) sample_data)))
       (generateLabelCandidates (sample_optimizer\<lparr>positionsOverlap := (\<lambda>p q d. True)\<rparr>)
          (generateCircleCandidates (sample_optimizer\<lparr>positionsOverlap := (\<lambda>p q d. True)\<rparr>)
             (analyzeRelationships (sample_optimizer\<lparr>positionsOverlap := (\<lambda>p q d. True)\<rparr>) sample_data)))
     = Inr (\<lparr>orgVars = [[1, 2], [3]], labelVars = [[4]], circles = [sample_circle]\<rparr>,
            \<lparr>clauses = [[1, 2], [- 1, - 2], [3], [4], [- 1, - 3], [- 2, - 3]], numVars = 4\<rparr>)"
    by code_simp
  have sol': "fst (solve \<lparr>clauses = [[1, 2], [- 1, - 2], [3], [4], [- 1, - 3], [- 2, - 3]],
       numVars = 4\<rparr>) = None"
    by code_simp
  from optimize_dispatch [OF enc, THEN conjunct2, rule_format, OF sol]
  have found: "optimize sample_optimizer sample_data =
     ([Call_extractSolution],
      extractSolution [None, Some False, Some True, Some True, Some True]
        \<lparr>orgVars = [[1, 2], [3]], labelVars = [[4]], circles = [sample_circle]\<rparr>
        sample_data [[sample_circle]] sample_org_candidates sample_label_candidates)"
    by simp
  from optimize_dispatch [OF enc', THEN conjunct1, rule_format, OF sol']
  have none: "optimize (sample_optimizer\<lparr>positionsOverlap := (\<lambda>p q d. True)\<rparr>) sample_data =
     ([Call_fallbackLayout],
      Inr \<lparr>layout_circles = [], layout_organizations = organizations sample_data\<rparr>)"
    by simp
  from found none show ?thesis by (intro conjI)
qed


end
